theory Spec2Isabelle
  imports Complex_Main "HOL-Library.Sublist" "HOL-Library.Multiset"
begin

text \<open>
  A shallow embedding of the request-dispatch core of the scraping gateway: the error
  classifier, the bounded priority queue, the parser of the accounts file, the health
  records with account selection, and the client pool with its scheduler and retry
  loop. Each definition follows a function of the TypeScript source, or a stretch of
  one between two \<open>await\<close>s, and the functions keep their names; the properties follow
  the definitions.
\<close>

section \<open>JavaScript string primitives\<close>

text \<open>
  Strings are lists of 8-bit characters. The primitives below follow the ECMAScript
  methods the repository calls, restricted to ASCII: \<open>toLowerCase\<close> maps
  \<open>A\<close>..\<open>Z\<close> to \<open>a\<close>..\<open>z\<close>, and \<open>trim\<close> strips tab, line feed, vertical tab,
  form feed, carriage return and space.
\<close>

definition lowerChar :: "char \<Rightarrow> char" where
  "lowerChar c =
     (let n = (of_char c :: nat) in if 65 \<le> n \<and> n \<le> 90 then char_of (n + 32) else c)"

definition toLowerCase :: "string \<Rightarrow> string" where
  "toLowerCase s = map lowerChar s"

text \<open>\<open>s.includes(sub)\<close>: \<open>sub\<close> starts at some position of \<open>s\<close>.\<close>

fun str_includes :: "string \<Rightarrow> string \<Rightarrow> bool" where
  "str_includes [] sub = (sub = [])"
| "str_includes (c # cs) sub = (prefix sub (c # cs) \<or> str_includes cs sub)"

definition startsWith :: "string \<Rightarrow> string \<Rightarrow> bool" where
  "startsWith s p = prefix p s"

definition isSpace :: "char \<Rightarrow> bool" where
  "isSpace c = (let n = (of_char c :: nat) in n = 32 \<or> (9 \<le> n \<and> n \<le> 13))"

definition trim :: "string \<Rightarrow> string" where
  "trim s = rev (dropWhile isSpace (rev (dropWhile isSpace s)))"

text \<open>\<open>s.split(sep)\<close> for a one-character separator: never the empty list.\<close>

fun splitOn :: "char \<Rightarrow> string \<Rightarrow> string list" where
  "splitOn sep [] = [[]]"
| "splitOn sep (c # cs) =
     (if c = sep then [] # splitOn sep cs
      else (case splitOn sep cs of [] \<Rightarrow> [[c]] | f # fs \<Rightarrow> (c # f) # fs))"

text \<open>\<open>parts.join(sep)\<close>.\<close>

fun joinWith :: "char \<Rightarrow> string list \<Rightarrow> string" where
  "joinWith sep [] = []"
| "joinWith sep [x] = x"
| "joinWith sep (x # y # ys) = x @ sep # joinWith sep (y # ys)"

text \<open>\<open>xs.slice(a, b)\<close> for \<open>0 \<le> a\<close> and \<open>0 \<le> b\<close>.\<close>

definition slice :: "nat \<Rightarrow> nat \<Rightarrow> 'a list \<Rightarrow> 'a list" where
  "slice a b xs = take (b - a) (drop a xs)"

text \<open>\<open>xs.pop()\<close>, the value it returns: the last element, \<open>undefined\<close> on an empty array.\<close>

definition pop :: "'a list \<Rightarrow> 'a option" where
  "pop xs = (case rev xs of [] \<Rightarrow> None | x # _ \<Rightarrow> Some x)"

definition LF :: char where
  "LF = CHR 0x0A"

definition CR :: char where
  "CR = CHR 0x0D"

text \<open>\<open>raw.split(/\r?\n/)\<close>: a line ends at a line feed, and a carriage return
  right before that line feed belongs to the separator.\<close>

fun splitLines :: "string \<Rightarrow> string list" where
  "splitLines [] = [[]]"
| "splitLines (c # cs) =
     (if c = LF then [] # splitLines cs
      else if c = CR \<and> take 1 cs = [LF] then [] # splitLines (drop 1 cs)
      else (case splitLines cs of [] \<Rightarrow> [[c]] | f # fs \<Rightarrow> (c # f) # fs))"

text \<open>JavaScript truthiness of a string, as used by \<open>x || undefined\<close>.\<close>

definition orUndefined :: "string \<Rightarrow> string option" where
  "orUndefined s = (if s = [] then None else Some s)"


section \<open>Error classification (src/common/errors.ts)\<close>

datatype ErrorType = TIMEOUT | NETWORK | RATE_LIMIT | AUTH | NOT_FOUND | ACCOUNT_LOCKED | UNKNOWN

text \<open>\<open>classifyError\<close> reads only \<open>error.message\<close>; the model takes the message.\<close>

definition classifyError :: "string \<Rightarrow> ErrorType" where
  "classifyError msg =
     (let message = toLowerCase msg in
      if str_includes message ''timeout'' \<or> str_includes message ''timed out'' then TIMEOUT
      else if str_includes message ''network'' \<or> str_includes message ''fetch failed''
              \<or> str_includes message ''connection'' \<or> str_includes message ''socket''
              \<or> str_includes message ''econnreset'' \<or> str_includes message ''enotfound''
           then NETWORK
      else if str_includes message ''rate limit'' \<or> str_includes message ''too many requests''
              \<or> str_includes message ''429''
           then RATE_LIMIT
      else if str_includes message ''unauthorized'' \<or> str_includes message ''401''
              \<or> str_includes message ''authentication failed''
              \<or> (str_includes message ''status'' \<and> str_includes message ''403'')
           then AUTH
      else if str_includes message ''not found'' \<or> str_includes message ''404'' then NOT_FOUND
      else if str_includes message ''locked'' \<or> str_includes message ''suspended''
              \<or> str_includes message ''verify your identity''
           then ACCOUNT_LOCKED
      else UNKNOWN)"

definition isTransientError :: "ErrorType \<Rightarrow> bool" where
  "isTransientError errorType =
     (errorType = TIMEOUT \<or> errorType = NETWORK \<or> errorType = UNKNOWN)"

fun errorTypeToHttpStatus :: "ErrorType \<Rightarrow> int" where
  "errorTypeToHttpStatus RATE_LIMIT = 429"
| "errorTypeToHttpStatus AUTH = 401"
| "errorTypeToHttpStatus NOT_FOUND = 404"
| "errorTypeToHttpStatus ACCOUNT_LOCKED = 503"
| "errorTypeToHttpStatus TIMEOUT = 502"
| "errorTypeToHttpStatus NETWORK = 502"
| "errorTypeToHttpStatus UNKNOWN = 500"

subsection \<open>The classifier as the specification words it\<close>

text \<open>
  The specification gives \<open>classify\<close> as an ordered table of rules, each a kind and a
  test on the lowercased message, the first matching rule deciding and \<open>UNKNOWN\<close>
  standing for no match. \<open>spec_classify\<close> is that table, to be compared with
  \<open>classifyError\<close>.
\<close>

definition containsAny :: "string \<Rightarrow> string list \<Rightarrow> bool" where
  "containsAny m subs = list_ex (str_includes m) subs"

definition spec_rules :: "(ErrorType \<times> (string \<Rightarrow> bool)) list" where
  "spec_rules =
     [(TIMEOUT, \<lambda>m. containsAny m [''timeout'', ''timed out'']),
      (NETWORK, \<lambda>m. containsAny m
         [''network'', ''fetch failed'', ''connection'', ''socket'', ''econnreset'', ''enotfound'']),
      (RATE_LIMIT, \<lambda>m. containsAny m [''rate limit'', ''too many requests'', ''429'']),
      (AUTH, \<lambda>m. containsAny m [''unauthorized'', ''401'', ''authentication failed'']
                   \<or> (str_includes m ''status'' \<and> str_includes m ''403'')),
      (NOT_FOUND, \<lambda>m. containsAny m [''not found'', ''404'']),
      (ACCOUNT_LOCKED, \<lambda>m. containsAny m [''locked'', ''suspended'', ''verify your identity''])]"

fun firstMatch :: "(ErrorType \<times> (string \<Rightarrow> bool)) list \<Rightarrow> string \<Rightarrow> ErrorType" where
  "firstMatch [] m = UNKNOWN"
| "firstMatch ((kind, test) # rules) m = (if test m then kind else firstMatch rules m)"

definition spec_classify :: "string \<Rightarrow> ErrorType" where
  "spec_classify msg = firstMatch spec_rules (toLowerCase msg)"


section \<open>The bounded priority queue (src/common/queue.ts)\<close>

datatype RequestPriority = HIGH | MEDIUM | LOW

fun priorityValue :: "RequestPriority \<Rightarrow> nat" where
  "priorityValue HIGH = 0"
| "priorityValue MEDIUM = 1"
| "priorityValue LOW = 2"

text \<open>
  Promises are numbered. A promise is pending until it is settled, and it settles one
  of two ways: resolved, with a value the model does not keep, or rejected with the
  message of an error.
\<close>

datatype Outcome = Resolved | Rejected string

text \<open>What \<open>enqueue\<close> returns: a promise that is already settled, or a pending promise.\<close>

datatype Future = Settled Outcome | Pending nat

text \<open>
  A queued request carries its priority, the clock reading at admission, the thunk, of
  any type \<open>'a\<close>, and the \<open>resolve\<close> and \<open>reject\<close> callbacks of the promise that \<open>enqueue\<close>
  returned for it. The two callbacks are the two ways of settling that one promise, so
  the model keeps the number of the promise: calling \<open>request.resolve\<close> settles promise
  \<open>promise request\<close> as \<open>Resolved\<close>, calling \<open>request.reject\<close> settles it as \<open>Rejected\<close>.
\<close>

record 'a QueuedRequest =
  priority :: RequestPriority
  timestamp :: int
  execute :: 'a
  promise :: nat

record 'a PriorityQueue =
  items :: "'a QueuedRequest list"
  maxSize :: int

definition newPriorityQueue :: "int \<Rightarrow> 'a PriorityQueue" where
  "newPriorityQueue n = \<lparr>items = [], maxSize = n\<rparr>"

text \<open>The test of the insertion loop: the new request goes before item \<open>x\<close>.\<close>

definition goesBefore :: "'a QueuedRequest \<Rightarrow> 'a QueuedRequest \<Rightarrow> bool" where
  "goesBefore r x =
     (priorityValue (priority r) < priorityValue (priority x)
      \<or> (priority r = priority x \<and> timestamp r < timestamp x))"

text \<open>The \<open>for\<close> loop: the first index whose item the request goes before, the length
  when there is none.\<close>

fun insertIdx :: "'a QueuedRequest \<Rightarrow> 'a QueuedRequest list \<Rightarrow> nat" where
  "insertIdx r [] = 0"
| "insertIdx r (x # xs) = (if goesBefore r x then 0 else Suc (insertIdx r xs))"

text \<open>\<open>items.splice(idx, 0, r)\<close>.\<close>

definition splice :: "nat \<Rightarrow> 'a \<Rightarrow> 'a list \<Rightarrow> 'a list" where
  "splice idx r xs = take idx xs @ r # drop idx xs"

text \<open>
  \<open>enqueue\<close> at clock reading \<open>now\<close>, where \<open>pid\<close> is the number of the promise that
  \<open>new Promise\<close> creates: the future returned and the queue left. On a full queue the
  future is \<open>Promise.reject\<close> of the error and the queue is as it was; otherwise the
  future is the pending promise \<open>pid\<close>, whose callbacks the inserted request holds.
\<close>

definition enqueue ::
  "'a PriorityQueue \<Rightarrow> RequestPriority \<Rightarrow> int \<Rightarrow> nat \<Rightarrow> 'a \<Rightarrow> Future \<times> 'a PriorityQueue" where
  "enqueue q prio now pid thunk =
     (if maxSize q \<le> int (length (items q))
      then (Settled (Rejected ''Request queue is full''), q)
      else
        (let request = \<lparr>priority = prio, timestamp = now, execute = thunk, promise = pid\<rparr>
         in (Pending pid,
             q\<lparr>items := splice (insertIdx request (items q)) request (items q)\<rparr>)))"

text \<open>\<open>dequeue\<close> is \<open>items.shift()\<close>.\<close>

definition dequeue :: "'a PriorityQueue \<Rightarrow> 'a QueuedRequest option \<times> 'a PriorityQueue" where
  "dequeue q =
     (case items q of [] \<Rightarrow> (None, q) | x # xs \<Rightarrow> (Some x, q\<lparr>items := xs\<rparr>))"

definition queueLength :: "'a PriorityQueue \<Rightarrow> nat" where
  "queueLength q = length (items q)"

text \<open>The order the queue keeps: no item goes before an item in front of it.\<close>

definition queueSorted :: "'a QueuedRequest list \<Rightarrow> bool" where
  "queueSorted xs = sorted_wrt (\<lambda>a b. \<not> goesBefore b a) xs"

text \<open>A sequence of queue operations, each enqueue with its clock reading and the
  number of its promise.\<close>

datatype 'a QueueOp = Enqueue RequestPriority int nat 'a | Dequeue

fun applyOp :: "'a PriorityQueue \<Rightarrow> 'a QueueOp \<Rightarrow> 'a PriorityQueue" where
  "applyOp q (Enqueue prio now pid thunk) = snd (enqueue q prio now pid thunk)"
| "applyOp q Dequeue = snd (dequeue q)"

definition runOps :: "'a PriorityQueue \<Rightarrow> 'a QueueOp list \<Rightarrow> 'a PriorityQueue" where
  "runOps q ops = foldl applyOp q ops"


section \<open>The accounts flat file (src/storage/accounts.store.ts)\<close>

record TwitterAccount =
  username :: string
  password :: string
  email :: string
  emailPassword :: "string option"
  twoFactorSecret :: "string option"
  ct0 :: "string option"
  authToken :: "string option"

definition normalizeTwoFactorSecret :: "string option \<Rightarrow> string option" where
  "normalizeTwoFactorSecret val =
     (case val of
        None \<Rightarrow> None
      | Some v0 \<Rightarrow>
          if v0 = [] then None
          else
            (let v = trim v0 in
             if v = [] then None
             else
               (let last = (if str_includes v ''/'' then pop (splitOn (CHR ''/'') v) else Some v)
                in case last of None \<Rightarrow> None | Some l \<Rightarrow> orUndefined (trim l))))"

text \<open>The body of the loop over the lines: the record a line gives, \<open>None\<close> where the
  source says \<open>continue\<close>.\<close>

definition parseLine :: "string \<Rightarrow> TwitterAccount option" where
  "parseLine line =
     (let parts = splitOn (CHR '':'') line in
      if length parts < 7 then None
      else
        (let uname = parts ! 0;
             pass = parts ! 1;
             mail = parts ! 2;
             mailPass = parts ! 3;
             tok = parts ! (length parts - 1);
             csrf = parts ! (length parts - 2);
             twoFaRaw = joinWith (CHR '':'') (slice 4 (length parts - 2) parts);
             secret = normalizeTwoFactorSecret (Some twoFaRaw)
         in if uname = [] \<or> pass = [] \<or> mail = [] then None
            else Some \<lparr>username = uname, password = pass, email = mail,
                       emailPassword = Some mailPass,
                       twoFactorSecret = secret,
                       ct0 = orUndefined csrf,
                       authToken = orUndefined tok\<rparr>))"

definition recordLines :: "string \<Rightarrow> string list" where
  "recordLines raw =
     filter (\<lambda>x. 0 < length x \<and> \<not> startsWith x ''#'') (map trim (splitLines raw))"

definition parseAccountsFromTxt :: "string \<Rightarrow> TwitterAccount list" where
  "parseAccountsFromTxt raw = List.map_filter parseLine (recordLines raw)"

text \<open>The substring after the last \<open>/\<close>, as the specification words the normalisation.\<close>

definition afterLast :: "char \<Rightarrow> string \<Rightarrow> string" where
  "afterLast c v = rev (takeWhile (\<lambda>d. d \<noteq> c) (rev v))"

definition afterLastSlash :: "string \<Rightarrow> string" where
  "afterLastSlash v = afterLast (CHR ''/'') v"


section \<open>Account health (src/twitter/twitter-client-pool.service.ts)\<close>

text \<open>
  JavaScript numbers that count or read the clock are integers here, and \<open>successRate\<close>
  is a real number: the arithmetic of the source is taken exactly.
\<close>

datatype AccountStatus = HEALTHY | PROBATION | COOLDOWN | DISABLED | LOCKED

record AccountHealth =
  status :: AccountStatus
  lastUsed :: int
  requestCount :: int
  consecutiveFailures :: int
  consecutiveSuccesses :: int
  cooldownUntil :: "int option"
  lastErrorType :: "ErrorType option"
  lastErrorTime :: "int option"
  successRate :: real
  requestTimestamps :: "int list"

type_synonym HealthMap = "string \<rightharpoonup> AccountHealth"

text \<open>The constants the constructor sets.\<close>

definition maxConsecutiveFailures :: int where
  "maxConsecutiveFailures = 10"

definition cooldownMs :: int where
  "cooldownMs = 2 * 60000"

definition rateLimitWindow :: int where
  "rateLimitWindow = 15 * 60000"

definition maxRequestsPerWindow :: int where
  "maxRequestsPerWindow = 50"

text \<open>The default of \<open>runWithRetry\<close>'s parameter, which \<open>execute\<close> never overrides.\<close>

definition maxRetries :: nat where
  "maxRetries = 3"

definition initialHealth :: AccountHealth where
  "initialHealth =
     \<lparr>status = HEALTHY, lastUsed = 0, requestCount = 0, consecutiveFailures = 0,
      consecutiveSuccesses = 0, cooldownUntil = None, lastErrorType = None,
      lastErrorTime = None, successRate = 1, requestTimestamps = []\<rparr>"

text \<open>
  \<open>ensureHealth\<close> creates the record of a name on first touch and returns the record
  of the name: \<open>ensureHealth\<close> is the map it leaves, \<open>healthOf\<close> the record it returns.
\<close>

definition ensureHealth :: "HealthMap \<Rightarrow> string \<Rightarrow> HealthMap" where
  "ensureHealth m u = (if m u = None then m(u \<mapsto> initialHealth) else m)"

definition healthOf :: "HealthMap \<Rightarrow> string \<Rightarrow> AccountHealth" where
  "healthOf m u = (case m u of None \<Rightarrow> initialHealth | Some h \<Rightarrow> h)"

definition recordSuccess :: "HealthMap \<Rightarrow> string \<Rightarrow> int \<Rightarrow> HealthMap" where
  "recordSuccess m u now =
     (let h0 = healthOf m u;
          h1 = h0\<lparr>lastUsed := now,
                  requestCount := requestCount h0 + 1,
                  consecutiveSuccesses := consecutiveSuccesses h0 + 1,
                  consecutiveFailures := 0,
                  requestTimestamps := requestTimestamps h0 @ [now]\<rparr>;
          h2 = h1\<lparr>successRate :=
                    (if 0 < requestCount h1
                     then (of_int (requestCount h1)
                            - of_nat (length (filter (\<lambda>t. False) (requestTimestamps h1))))
                          / of_int (requestCount h1)
                     else 1)\<rparr>;
          h3 = h2\<lparr>successRate := successRate h2 * 0.9 + 0.1\<rparr>;
          h4 = (if status h3 = PROBATION \<and> 3 \<le> consecutiveSuccesses h3
                then h3\<lparr>status := HEALTHY\<rparr> else h3)
      in m(u \<mapsto> h4))"

definition recordFailure :: "HealthMap \<Rightarrow> string \<Rightarrow> ErrorType \<Rightarrow> int \<Rightarrow> HealthMap" where
  "recordFailure m u errorType now =
     (let h0 = healthOf m u;
          h1 = h0\<lparr>lastUsed := now,
                  requestCount := requestCount h0 + 1,
                  consecutiveFailures := consecutiveFailures h0 + 1,
                  consecutiveSuccesses := 0,
                  lastErrorType := Some errorType,
                  lastErrorTime := Some now,
                  requestTimestamps := requestTimestamps h0 @ [now],
                  successRate := successRate h0 * 0.9\<rparr>;
          h2 = (if errorType = ACCOUNT_LOCKED then h1\<lparr>status := LOCKED\<rparr>
                else if errorType = RATE_LIMIT
                  then h1\<lparr>status := COOLDOWN, cooldownUntil := Some (now + cooldownMs)\<rparr>
                else if maxConsecutiveFailures \<le> consecutiveFailures h1
                  then h1\<lparr>status := COOLDOWN, cooldownUntil := Some (now + cooldownMs)\<rparr>
                else h1)
      in m(u \<mapsto> h2))"

text \<open>
  The tests \<open>h.cooldownUntil && now < h.cooldownUntil\<close> of \<open>selectAccount\<close> and
  \<open>h.cooldownUntil && now > h.cooldownUntil\<close> of \<open>runHealthCheck\<close>: an optional number is
  truthy when it is set and not zero.
\<close>

definition cooldownPending :: "AccountHealth \<Rightarrow> int \<Rightarrow> bool" where
  "cooldownPending h now =
     (case cooldownUntil h of None \<Rightarrow> False | Some c \<Rightarrow> c \<noteq> 0 \<and> now < c)"

definition cooldownOver :: "AccountHealth \<Rightarrow> int \<Rightarrow> bool" where
  "cooldownOver h now =
     (case cooldownUntil h of None \<Rightarrow> False | Some c \<Rightarrow> c \<noteq> 0 \<and> c < now)"

definition recentRequests :: "AccountHealth \<Rightarrow> int \<Rightarrow> int list" where
  "recentRequests h now = filter (\<lambda>t. now - t < rateLimitWindow) (requestTimestamps h)"

text \<open>The filter of \<open>selectAccount\<close>.\<close>

definition selectable :: "HealthMap \<Rightarrow> int \<Rightarrow> TwitterAccount \<Rightarrow> bool" where
  "selectable m now acct =
     (let h = healthOf m (username acct) in
      if status h = DISABLED \<or> status h = LOCKED then False
      else if status h = COOLDOWN \<and> cooldownPending h now then False
      else if maxRequestsPerWindow \<le> int (length (recentRequests h now)) then False
      else True)"

text \<open>The comparator of \<open>selectAccount\<close>.\<close>

definition compareAccounts :: "HealthMap \<Rightarrow> TwitterAccount \<Rightarrow> TwitterAccount \<Rightarrow> int" where
  "compareAccounts m a b =
     (let ha = healthOf m (username a); hb = healthOf m (username b) in
      if status ha \<noteq> status hb \<and> status ha = HEALTHY then - 1
      else if status ha \<noteq> status hb \<and> status hb = HEALTHY then 1
      else if consecutiveFailures ha \<noteq> consecutiveFailures hb
        then consecutiveFailures ha - consecutiveFailures hb
      else lastUsed ha - lastUsed hb)"

text \<open>
  \<open>Array.prototype.sort\<close> with a comparator is a stable sort; it is modelled as the
  stable insertion sort, each element going before the first one it does not follow.
\<close>

fun insertSorted :: "('a \<Rightarrow> 'a \<Rightarrow> int) \<Rightarrow> 'a \<Rightarrow> 'a list \<Rightarrow> 'a list" where
  "insertSorted cmp x [] = [x]"
| "insertSorted cmp x (y # ys) =
     (if cmp x y \<le> 0 then x # y # ys else y # insertSorted cmp x ys)"

definition sortWith :: "('a \<Rightarrow> 'a \<Rightarrow> int) \<Rightarrow> 'a list \<Rightarrow> 'a list" where
  "sortWith cmp xs = foldr (insertSorted cmp) xs []"

text \<open>
  \<open>selectAccount\<close> at clock reading \<open>now\<close>: the account chosen, and the health map with
  the record of every listed account created. Creating a record does not change what
  \<open>healthOf\<close> reads, so the filter and the comparator read the final map.
\<close>

definition selectAccount ::
  "TwitterAccount list \<Rightarrow> HealthMap \<Rightarrow> int \<Rightarrow> TwitterAccount option \<times> HealthMap" where
  "selectAccount accts m now =
     (let m' = foldl ensureHealth m (map username accts);
          candidates = sortWith (compareAccounts m') (filter (selectable m' now) accts)
      in (case candidates of [] \<Rightarrow> None | a # _ \<Rightarrow> Some a, m'))"

text \<open>The body of the loop of \<open>runHealthCheck\<close>, and the loop over the map.\<close>

definition sweep :: "int \<Rightarrow> AccountHealth \<Rightarrow> AccountHealth" where
  "sweep now h =
     (let h1 = h\<lparr>requestTimestamps :=
                   filter (\<lambda>t. now - t < rateLimitWindow) (requestTimestamps h)\<rparr>
      in if status h1 = COOLDOWN \<and> cooldownOver h1 now
         then h1\<lparr>status := PROBATION, consecutiveFailures := 0\<rparr>
         else h1)"

definition runHealthCheck :: "HealthMap \<Rightarrow> int \<Rightarrow> HealthMap" where
  "runHealthCheck m now = (\<lambda>u. map_option (sweep now) (m u))"


section \<open>The client pool as a machine of events\<close>

text \<open>
  The pool runs on one thread: between two \<open>await\<close>s a piece of code runs to its end,
  and what the environment decides is when each awaited promise settles and how. An
  event is one such decision, with the clock reading of the code it wakes; \<open>step\<close> runs
  the code up to its next \<open>await\<close>.

  A call of \<open>runWithRetry\<close> is a task: the number of the promise of the request it
  serves, the attempt number, the account of the attempt, the \<open>await\<close> it is suspended at
  and the last error. The authentication ladder and the caller's executor are promises
  of the environment: each resolves, or rejects with a message.

  \<open>processQueue\<close> attaches \<open>.then(result => request.resolve(result))\<close> and
  \<open>.catch(err => request.reject(err))\<close> to the promise of the thunk, so the stretch of
  code in which \<open>runWithRetry\<close> returns or throws ends with the request's promise
  settled: \<open>settle\<close> is that call of \<open>request.resolve\<close> or \<open>request.reject\<close>, and
  \<open>settled\<close> lists the promises settled so far, each with its outcome.
\<close>

datatype Phase = Authenticating | Executing | Backoff

record RetryTask =
  request :: nat
  operationType :: string
  attempt :: nat
  account :: TwitterAccount
  phase :: Phase
  lastError :: "string option"

record Config =
  MAX_CONCURRENCY :: "int option"
  MAX_QUEUE_SIZE :: "int option"

record Pool =
  accounts :: "TwitterAccount list"
  proxyCount :: nat
  healthMap :: HealthMap
  queue :: "string PriorityQueue"
  activeOps :: int
  maxConcurrency :: int
  nextRequest :: nat
  inFlight :: "RetryTask list"
  settled :: "(nat \<times> Outcome) list"

text \<open>\<open>config.get(key, default)\<close>.\<close>

definition configGet :: "int option \<Rightarrow> int \<Rightarrow> int" where
  "configGet v d = (case v of None \<Rightarrow> d | Some x \<Rightarrow> x)"

text \<open>The constructor, given the configuration, the accounts listed and the number of
  proxies. A queued thunk \<open>() => this.runWithRetry(operationType, executor)\<close> is kept
  as its operation name; promises are numbered in the order of the calls of \<open>execute\<close>.\<close>

definition newPool :: "Config \<Rightarrow> TwitterAccount list \<Rightarrow> nat \<Rightarrow> Pool" where
  "newPool config accts nproxies =
     \<lparr>accounts = accts, proxyCount = nproxies, healthMap = Map.empty,
      queue = newPriorityQueue (configGet (MAX_QUEUE_SIZE config) 1000),
      activeOps = 0,
      maxConcurrency = configGet (MAX_CONCURRENCY config) 10,
      nextRequest = 0, inFlight = [], settled = []\<rparr>"

record PoolStats =
  accountsTotal :: nat
  accountsHealthy :: nat
  accountsProbation :: nat
  accountsCooldown :: nat
  accountsDisabled :: nat
  accountsLocked :: nat
  proxiesTotal :: nat
  queueDepth :: nat
  queueMaxSize :: int
  concurrencyActive :: int
  concurrencyMax :: int
  perAccount :: "string \<rightharpoonup> AccountStatus \<times> int \<times> int"

definition countStatus :: "Pool \<Rightarrow> AccountStatus \<Rightarrow> nat" where
  "countStatus p s =
     length (filter (\<lambda>a. status (healthOf (healthMap p) (username a)) = s) (accounts p))"

text \<open>\<open>Math.round\<close>.\<close>

definition mathRound :: "real \<Rightarrow> int" where
  "mathRound x = \<lfloor>x + 1 / 2\<rfloor>"

definition perAccountOf :: "Pool \<Rightarrow> (string \<rightharpoonup> AccountStatus \<times> int \<times> int)" where
  "perAccountOf p =
     foldl (\<lambda>acc a.
        (let h = healthOf (healthMap p) (username a)
         in acc(username a \<mapsto> (status h, requestCount h, mathRound (successRate h * 100)))))
       Map.empty (accounts p)"

text \<open>\<open>getStats\<close>, the value it returns.\<close>

definition getStats :: "Pool \<Rightarrow> PoolStats" where
  "getStats p =
     \<lparr>accountsTotal = length (accounts p),
      accountsHealthy = countStatus p HEALTHY,
      accountsProbation = countStatus p PROBATION,
      accountsCooldown = countStatus p COOLDOWN,
      accountsDisabled = countStatus p DISABLED,
      accountsLocked = countStatus p LOCKED,
      proxiesTotal = proxyCount p,
      queueDepth = queueLength (queue p),
      queueMaxSize = 1000,
      concurrencyActive = activeOps p,
      concurrencyMax = maxConcurrency p,
      perAccount = perAccountOf p\<rparr>"

text \<open>\<open>request.resolve\<close> and \<open>request.reject\<close>: settling the promise of a request, the
  one \<open>execute\<close> returned to its caller.\<close>

definition settle :: "nat \<Rightarrow> Outcome \<Rightarrow> Pool \<Rightarrow> Pool" where
  "settle rid out p = p\<lparr>settled := settled p @ [(rid, out)]\<rparr>"

definition dropTask :: "nat \<Rightarrow> Pool \<Rightarrow> Pool" where
  "dropTask rid p = p\<lparr>inFlight := filter (\<lambda>t. request t \<noteq> rid) (inFlight p)\<rparr>"

definition findTask :: "Pool \<Rightarrow> nat \<Rightarrow> Phase \<Rightarrow> RetryTask option" where
  "findTask p rid ph = find (\<lambda>t. request t = rid \<and> phase t = ph) (inFlight p)"

definition putTask :: "RetryTask \<Rightarrow> Pool \<Rightarrow> Pool" where
  "putTask t p =
     p\<lparr>inFlight := map (\<lambda>t'. if request t' = request t then t else t') (inFlight p)\<rparr>"

text \<open>
  One iteration of the loop of \<open>runWithRetry\<close> from its head to
  \<open>await this.authenticate\<close>: no usable account rejects the request; otherwise the task
  waits for the authentication of the chosen account.
\<close>

definition beginAttempt :: "nat \<Rightarrow> string \<Rightarrow> nat \<Rightarrow> string option \<Rightarrow> int \<Rightarrow> Pool \<Rightarrow> Pool" where
  "beginAttempt rid opType att err now p =
     (case selectAccount (accounts p) (healthMap p) now of
        (None, m) \<Rightarrow>
          settle rid (Rejected ''No usable accounts available'')
            (dropTask rid (p\<lparr>healthMap := m\<rparr>))
      | (Some acct, m) \<Rightarrow>
          (let p1 = dropTask rid (p\<lparr>healthMap := ensureHealth m (username acct)\<rparr>)
           in p1\<lparr>inFlight := inFlight p1 @
                  [\<lparr>request = rid, operationType = opType, attempt = att, account = acct,
                    phase = Authenticating, lastError = err\<rparr>]\<rparr>))"

text \<open>The loop test and, when it fails, the \<open>throw\<close> after the loop.\<close>

definition loopHead :: "nat \<Rightarrow> string \<Rightarrow> nat \<Rightarrow> string option \<Rightarrow> int \<Rightarrow> Pool \<Rightarrow> Pool" where
  "loopHead rid opType att err now p =
     (if att < maxRetries then beginAttempt rid opType att err now p
      else settle rid
             (Rejected (case err of Some e \<Rightarrow> e | None \<Rightarrow> opType @ '' failed after retries''))
             (dropTask rid p))"

text \<open>The \<open>catch\<close> block, up to the backoff sleep.\<close>

definition catchFailure :: "RetryTask \<Rightarrow> string \<Rightarrow> int \<Rightarrow> Pool \<Rightarrow> Pool" where
  "catchFailure t msg now p =
     (let errorType = classifyError msg;
          p1 = p\<lparr>healthMap := recordFailure (healthMap p) (username (account t)) errorType now\<rparr>
      in if \<not> isTransientError errorType
         then settle (request t) (Rejected msg) (dropTask (request t) p1)
         else putTask (t\<lparr>phase := Backoff, lastError := Some msg\<rparr>) p1)"

lemma queue_loopHead: "queue (loopHead rid opType att err now p) = queue p"
  by (simp add: loopHead_def beginAttempt_def settle_def dropTask_def Let_def
      split: prod.splits option.splits)

text \<open>
  \<open>processQueue\<close>: while a slot is free and the queue holds a request, take the head
  and call its thunk, which runs \<open>runWithRetry\<close> to its first \<open>await\<close>.
\<close>

function processQueue :: "int \<Rightarrow> Pool \<Rightarrow> Pool" where
  "processQueue now p =
     (if activeOps p < maxConcurrency p \<and> 0 < queueLength (queue p) then
        (case dequeue (queue p) of
           (None, q) \<Rightarrow> p\<lparr>queue := q\<rparr>
         | (Some req, q) \<Rightarrow>
             processQueue now
               (loopHead (promise req) (execute req) 0 None now (p\<lparr>queue := q\<rparr>)))
      else p)"
  by pat_completeness auto
termination
  by (relation "measure (\<lambda>(now, p). queueLength (queue p))")
     (auto simp: queue_loopHead dequeue_def queueLength_def split: list.splits)

text \<open>The equation of the loop is unfolded by hand, one iteration at a time.\<close>

declare processQueue.simps [simp del]

text \<open>The events, and the code each one runs.\<close>

datatype Event =
    Execute string RequestPriority int
  | ProcessQueue int
  | HealthCheck int
  | AuthResolved nat
  | AuthRejected nat string int
  | ExecutorResolved nat int
  | ExecutorRejected nat string int
  | BackoffElapsed nat int

fun step :: "Pool \<Rightarrow> Event \<Rightarrow> Pool" where
  "step p (Execute opType prio now) =
     (let pid = nextRequest p; p1 = p\<lparr>nextRequest := pid + 1\<rparr> in
      case enqueue (queue p1) prio now pid opType of
        (Settled out, q) \<Rightarrow> settle pid out (p1\<lparr>queue := q\<rparr>)
      | (Pending _, q) \<Rightarrow> p1\<lparr>queue := q\<rparr>)"
| "step p (ProcessQueue now) = processQueue now p"
| "step p (HealthCheck now) = p\<lparr>healthMap := runHealthCheck (healthMap p) now\<rparr>"
| "step p (AuthResolved rid) =
     (case findTask p rid Authenticating of
        None \<Rightarrow> p
      | Some t \<Rightarrow> putTask (t\<lparr>phase := Executing\<rparr>) (p\<lparr>activeOps := activeOps p + 1\<rparr>))"
| "step p (AuthRejected rid msg now) =
     (case findTask p rid Authenticating of
        None \<Rightarrow> p
      | Some t \<Rightarrow> catchFailure t msg now p)"
| "step p (ExecutorResolved rid now) =
     (case findTask p rid Executing of
        None \<Rightarrow> p
      | Some t \<Rightarrow>
          settle rid Resolved
            (dropTask rid
               (p\<lparr>healthMap := recordSuccess (healthMap p) (username (account t)) now,
                  activeOps := activeOps p - 1\<rparr>)))"
| "step p (ExecutorRejected rid msg now) =
     (case findTask p rid Executing of
        None \<Rightarrow> p
      | Some t \<Rightarrow> catchFailure t msg now (p\<lparr>activeOps := activeOps p - 1\<rparr>))"
| "step p (BackoffElapsed rid now) =
     (case findTask p rid Backoff of
        None \<Rightarrow> p
      | Some t \<Rightarrow> loopHead rid (operationType t) (attempt t + 1) (lastError t) now p)"

definition run :: "Pool \<Rightarrow> Event list \<Rightarrow> Pool" where
  "run p evs = foldl step p evs"

text \<open>Two accounts and the default configuration, for the concrete runs below.\<close>

definition alice :: TwitterAccount where
  "alice = \<lparr>username = ''alice'', password = ''pw1'', email = ''alice@x.com'',
     emailPassword = Some ''ep1'', twoFactorSecret = None, ct0 = None, authToken = None\<rparr>"

definition bob :: TwitterAccount where
  "bob = \<lparr>username = ''bob'', password = ''pw2'', email = ''bob@x.com'',
     emailPassword = Some ''ep2'', twoFactorSecret = None, ct0 = None, authToken = None\<rparr>"

definition defaultConfig :: Config where
  "defaultConfig = \<lparr>MAX_CONCURRENCY = None, MAX_QUEUE_SIZE = None\<rparr>"

text \<open>A request of the default pool over both accounts, admitted at time 1, taken from
  the queue at time 3, authenticated, and now inside its executor on its first attempt.\<close>

definition firstAttemptRunning :: Pool where
  "firstAttemptRunning =
     run (newPool defaultConfig [alice, bob] 0)
       [Execute ''getTweets(u)'' MEDIUM 1, ProcessQueue 3, AuthResolved 0]"


text \<open>The same pool over one account, for the run in which the first attempt times out
  and the second succeeds.\<close>

definition retryAfterTimeout :: Pool where
  "retryAfterTimeout =
     run (newPool defaultConfig [alice] 0)
       [Execute ''getTweets(u)'' MEDIUM 1, ProcessQueue 3, AuthResolved 0,
        ExecutorRejected 0 ''request timed out'' 5, BackoffElapsed 0 1100,
        AuthResolved 0, ExecutorResolved 0 1200]"

text \<open>The pool over one account with two requests in flight on it: the first attempt of
  request 0 has timed out and waits out its backoff, then the first attempt of request 1
  was answered "429 Too Many Requests", which put the only account in cooldown.\<close>

definition noAccountLeft :: Pool where
  "noAccountLeft =
     run (newPool defaultConfig [alice] 0)
       [Execute ''getTweets(u)'' MEDIUM 1, Execute ''getTweets(v)'' MEDIUM 2, ProcessQueue 3,
        AuthResolved 0, AuthResolved 1,
        ExecutorRejected 0 ''request timed out'' 5,
        ExecutorRejected 1 ''429 Too Many Requests'' 6]"

text \<open>The pool over both accounts with one request whose three attempts have timed out:
  it waits out the backoff of the third.\<close>

definition thirdAttemptFailed :: Pool where
  "thirdAttemptFailed =
     run (newPool defaultConfig [alice, bob] 0)
       [Execute ''getTweets(u)'' MEDIUM 1, ProcessQueue 3, AuthResolved 0,
        ExecutorRejected 0 ''request timed out'' 5, BackoffElapsed 0 1100,
        AuthResolved 0, ExecutorRejected 0 ''request timed out'' 1200,
        BackoffElapsed 0 3300, AuthResolved 0,
        ExecutorRejected 0 ''request timed out'' 3400]"

text \<open>A pool of one slot with two requests admitted and not yet taken from the queue.\<close>

definition twoQueued :: Pool where
  "twoQueued =
     run (newPool \<lparr>MAX_CONCURRENCY = Some 1, MAX_QUEUE_SIZE = None\<rparr> [alice] 0)
       [Execute ''a'' MEDIUM 1, Execute ''b'' MEDIUM 2]"

subsection \<open>Predicates of the proofs\<close>

text \<open>
  A health record that keeps its account out of selection at every clock reading
  before \<open>d\<close>; the clock reading an event carries, and an event whose reading lies in
  an interval; the tasks inside their executor, the numbers of the requests in flight
  or queued, and the invariant that ties \<open>activeOps\<close> to the tasks.
\<close>

definition blockedUntil :: "int \<Rightarrow> AccountHealth \<Rightarrow> bool" where
  "blockedUntil d h =
     (status h = LOCKED \<or> status h = DISABLED
      \<or> (status h = COOLDOWN
          \<and> (case cooldownUntil h of None \<Rightarrow> False | Some c \<Rightarrow> c \<noteq> 0 \<and> d \<le> c)))"

fun eventTime :: "Event \<Rightarrow> int option" where
  "eventTime (Execute opType prio now) = Some now"
| "eventTime (ProcessQueue now) = Some now"
| "eventTime (HealthCheck now) = Some now"
| "eventTime (AuthResolved rid) = None"
| "eventTime (AuthRejected rid msg now) = Some now"
| "eventTime (ExecutorResolved rid now) = Some now"
| "eventTime (ExecutorRejected rid msg now) = Some now"
| "eventTime (BackoffElapsed rid now) = Some now"

definition clockWithin :: "int \<Rightarrow> int \<Rightarrow> Event \<Rightarrow> bool" where
  "clockWithin lo hi ev = (case eventTime ev of None \<Rightarrow> True | Some t \<Rightarrow> lo \<le> t \<and> t \<le> hi)"

definition executingCount :: "Pool \<Rightarrow> nat" where
  "executingCount p = length (filter (\<lambda>t. phase t = Executing) (inFlight p))"

definition requestIds :: "Pool \<Rightarrow> nat list" where
  "requestIds p = map request (inFlight p) @ map promise (items (queue p))"

definition poolInvariant :: "Pool \<Rightarrow> bool" where
  "poolInvariant p =
     (distinct (requestIds p)
      \<and> list_all (\<lambda>i. i < nextRequest p) (requestIds p)
      \<and> activeOps p = int (executingCount p))"




section \<open>Properties of the error classifier\<close>

text \<open>\<open>str_includes\<close> is the substring relation.\<close>

lemma str_includes_iff: "str_includes s sub \<longleftrightarrow> (\<exists>p q. s = p @ sub @ q)"
proof (induction s)
  case Nil
  then show ?case by auto
next
  case (Cons c cs)
  show ?case
  proof
    assume "str_includes (c # cs) sub"
    then consider "prefix sub (c # cs)" | "str_includes cs sub" by auto
    then show "\<exists>p q. c # cs = p @ sub @ q"
    proof cases
      case 1
      then obtain q where "c # cs = sub @ q" by (auto simp: prefix_def)
      then have "c # cs = [] @ sub @ q" by simp
      then show ?thesis by blast
    next
      case 2
      with Cons.IH obtain p q where "cs = p @ sub @ q" by auto
      then have "c # cs = (c # p) @ sub @ q" by simp
      then show ?thesis by blast
    qed
  next
    assume "\<exists>p q. c # cs = p @ sub @ q"
    then obtain p q where e: "c # cs = p @ sub @ q" by blast
    show "str_includes (c # cs) sub"
    proof (cases p)
      case Nil
      with e have "prefix sub (c # cs)" by (simp add: prefix_def)
      then show ?thesis by simp
    next
      case (Cons a p')
      with e have "cs = p' @ sub @ q" by simp
      with Cons.IH show ?thesis by auto
    qed
  qed
qed


lemma containsAny_Cons: "containsAny m (s # subs) = (str_includes m s \<or> containsAny m subs)"
  by (simp add: containsAny_def)

lemma containsAny_Nil: "containsAny m [] = False"
  by (simp add: containsAny_def)

lemma classifyError_refines_spec: "classifyError msg = spec_classify msg"
  by (simp add: classifyError_def spec_classify_def spec_rules_def
      containsAny_Cons containsAny_Nil Let_def)

lemma classifyError_examples:
  "classifyError ''request timed out'' = TIMEOUT"
  "classifyError ''ECONNRESET'' = NETWORK"
  "classifyError ''429 Too Many Requests'' = RATE_LIMIT"
  "classifyError ''401 Unauthorized'' = AUTH"
  "classifyError ''User not found'' = NOT_FOUND"
  "classifyError ''Account locked'' = ACCOUNT_LOCKED"
  "classifyError ''something weird'' = UNKNOWN"
  by code_simp+

text \<open>
  Claim C8. \<open>classifyError\<close> is the ordered first-match table of the specification on
  the lowercased message, it gives the seven example classifications, \<open>isTransientError\<close>
  holds exactly for \<open>TIMEOUT\<close>, \<open>NETWORK\<close> and \<open>UNKNOWN\<close>, and
  \<open>errorTypeToHttpStatus\<close> maps the seven kinds to 429, 401, 404, 503, 502, 502, 500.
\<close>

theorem classify_transient_status:
  "classifyError msg = spec_classify msg
   \<and> classifyError ''request timed out'' = TIMEOUT
   \<and> classifyError ''ECONNRESET'' = NETWORK
   \<and> classifyError ''429 Too Many Requests'' = RATE_LIMIT
   \<and> classifyError ''401 Unauthorized'' = AUTH
   \<and> classifyError ''User not found'' = NOT_FOUND
   \<and> classifyError ''Account locked'' = ACCOUNT_LOCKED
   \<and> classifyError ''something weird'' = UNKNOWN
   \<and> isTransientError kind = (kind \<in> {TIMEOUT, NETWORK, UNKNOWN})
   \<and> errorTypeToHttpStatus RATE_LIMIT = 429
   \<and> errorTypeToHttpStatus AUTH = 401
   \<and> errorTypeToHttpStatus NOT_FOUND = 404
   \<and> errorTypeToHttpStatus ACCOUNT_LOCKED = 503
   \<and> errorTypeToHttpStatus TIMEOUT = 502
   \<and> errorTypeToHttpStatus NETWORK = 502
   \<and> errorTypeToHttpStatus UNKNOWN = 500"
proof -
  have transient: "isTransientError kind = (kind \<in> {TIMEOUT, NETWORK, UNKNOWN})"
    by (cases kind) (simp_all add: isTransientError_def)
  show ?thesis
    using classifyError_refines_spec [of msg] classifyError_examples transient
    by simp
qed


section \<open>Properties of the priority queue\<close>

lemma goesBefore_asym: "goesBefore a b \<Longrightarrow> \<not> goesBefore b a"
  by (auto simp: goesBefore_def)

lemma goesBefore_before_le: "goesBefore r x \<Longrightarrow> \<not> goesBefore y x \<Longrightarrow> \<not> goesBefore y r"
  by (cases "priority r"; cases "priority x"; cases "priority y") (auto simp: goesBefore_def)

lemma set_splice: "idx \<le> length xs \<Longrightarrow> set (splice idx r xs) = insert r (set xs)"
proof -
  assume "idx \<le> length xs"
  have "set (take idx xs) \<union> set (drop idx xs) = set xs"
    by (metis append_take_drop_id set_append)
  then show ?thesis by (auto simp: splice_def)
qed

lemma insertIdx_le: "insertIdx r xs \<le> length xs"
  by (induction xs) auto

lemma splice_Suc: "splice (Suc i) r (x # xs) = x # splice i r xs"
  by (simp add: splice_def)

lemma splice_0: "splice 0 r xs = r # xs"
  by (simp add: splice_def)

lemma queueSorted_insert:
  "queueSorted xs \<Longrightarrow> queueSorted (splice (insertIdx r xs) r xs)"
proof (induction xs)
  case Nil
  then show ?case by (simp add: queueSorted_def splice_def)
next
  case (Cons x xs)
  show ?case
  proof (cases "goesBefore r x")
    case True
    with Cons.prems show ?thesis
      by (auto simp: queueSorted_def splice_0 dest: goesBefore_asym goesBefore_before_le)
  next
    case False
    from Cons have "queueSorted (splice (insertIdx r xs) r xs)"
      by (simp add: queueSorted_def)
    with False Cons.prems show ?thesis
      by (auto simp: queueSorted_def splice_Suc set_splice insertIdx_le)
  qed
qed

lemma queueSorted_applyOp: "queueSorted (items q) \<Longrightarrow> queueSorted (items (applyOp q op))"
proof (cases op)
  case (Enqueue prio now thunk)
  assume "queueSorted (items q)"
  then show ?thesis using Enqueue
    by (auto simp: enqueue_def Let_def intro: queueSorted_insert)
next
  case Dequeue
  assume "queueSorted (items q)"
  then show ?thesis using Dequeue
    by (auto simp: dequeue_def queueSorted_def split: list.splits)
qed

lemma queueSorted_runOps: "queueSorted (items q) \<Longrightarrow> queueSorted (items (runOps q ops))"
  unfolding runOps_def
  by (induction ops arbitrary: q) (auto intro: queueSorted_applyOp)

lemma runOps_priority_scenario:
  "runOps (newPriorityQueue 10)
     [Enqueue LOW 5 10 ''low'', Enqueue HIGH 7 11 ''high'', Enqueue MEDIUM 9 12 ''med'']
   = \<lparr>items = [\<lparr>priority = HIGH, timestamp = 7, execute = ''high'', promise = 11\<rparr>,
               \<lparr>priority = MEDIUM, timestamp = 9, execute = ''med'', promise = 12\<rparr>,
               \<lparr>priority = LOW, timestamp = 5, execute = ''low'', promise = 10\<rparr>], maxSize = 10\<rparr>"
  by (simp add: runOps_def newPriorityQueue_def enqueue_def splice_def goesBefore_def)

text \<open>
  Claim C5. After any sequence of enqueue and dequeue operations on a queue that started
  empty, whatever the clock readings were, the request \<open>dequeue\<close> returns is one of the
  queued requests, its priority value is the least among them, and among those of its
  priority its timestamp is the least.
\<close>

theorem dequeue_returns_minimum:
  assumes "dequeue (runOps (newPriorityQueue C) ops) = (Some r, q')"
  shows "r \<in> set (items (runOps (newPriorityQueue C) ops))
     \<and> (\<forall>x \<in> set (items (runOps (newPriorityQueue C) ops)).
           priorityValue (priority r) \<le> priorityValue (priority x)
           \<and> (priority x = priority r \<longrightarrow> timestamp r \<le> timestamp x))"
proof -
  let ?q = "runOps (newPriorityQueue C) ops"
  have "queueSorted (items (newPriorityQueue C :: 'a PriorityQueue))"
    by (simp add: newPriorityQueue_def queueSorted_def)
  then have s: "queueSorted (items ?q)" by (rule queueSorted_runOps)
  from assms obtain rest where it: "items ?q = r # rest"
    by (auto simp: dequeue_def split: list.splits)
  from s it have "\<forall>x \<in> set rest. \<not> goesBefore x r"
    by (simp add: queueSorted_def)
  then have "\<forall>x \<in> set (items ?q). \<not> goesBefore x r"
    using it by (auto simp: goesBefore_def)
  then show ?thesis using it
    by (auto simp: goesBefore_def not_less)
qed

theorem dequeue_returns_minimum_witness:
  "dequeue (runOps (newPriorityQueue 10)
      [Enqueue LOW 5 10 ''low'', Enqueue HIGH 7 11 ''high'', Enqueue MEDIUM 9 12 ''med''])
    = (Some \<lparr>priority = HIGH, timestamp = 7, execute = ''high'', promise = 11\<rparr>,
       \<lparr>items = [\<lparr>priority = MEDIUM, timestamp = 9, execute = ''med'', promise = 12\<rparr>,
                 \<lparr>priority = LOW, timestamp = 5, execute = ''low'', promise = 10\<rparr>], maxSize = 10\<rparr>)
   \<and> \<lparr>priority = HIGH, timestamp = 7, execute = ''high'', promise = 11\<rparr>
       \<in> set (items (runOps (newPriorityQueue 10)
            [Enqueue LOW 5 10 ''low'', Enqueue HIGH 7 11 ''high'', Enqueue MEDIUM 9 12 ''med'']))"
proof -
  have d: "dequeue (runOps (newPriorityQueue 10)
      [Enqueue LOW 5 10 ''low'', Enqueue HIGH 7 11 ''high'', Enqueue MEDIUM 9 12 ''med''])
    = (Some \<lparr>priority = HIGH, timestamp = 7, execute = ''high'', promise = 11\<rparr>,
       \<lparr>items = [\<lparr>priority = MEDIUM, timestamp = 9, execute = ''med'', promise = 12\<rparr>,
                 \<lparr>priority = LOW, timestamp = 5, execute = ''low'', promise = 10\<rparr>], maxSize = 10\<rparr>)"
    by (simp add: runOps_priority_scenario dequeue_def)
  from dequeue_returns_minimum [OF d] d show ?thesis by blast
qed


section \<open>Properties of the accounts parser\<close>

lemma str_includes_single: "str_includes v [c] = (c \<in> set v)"
  by (induction v) auto

lemma splitOn_not_Nil: "splitOn sep s \<noteq> []"
  by (induction s) (auto split: list.splits)

lemma splitOn_no_sep: "sep \<notin> set s \<Longrightarrow> splitOn sep s = [s]"
  by (induction s) auto

lemma splitOn_sep_length: "sep \<in> set s \<Longrightarrow> 2 \<le> length (splitOn sep s)"
proof (induction s)
  case Nil then show ?case by simp
next
  case (Cons c cs)
  show ?case
  proof (cases "c = sep")
    case True
    then show ?thesis using splitOn_not_Nil [of sep cs]
      by (cases "splitOn sep cs") auto
  next
    case False
    with Cons show ?thesis by (auto split: list.splits)
  qed
qed

lemma afterLast_no_sep: "c \<notin> set v \<Longrightarrow> afterLast c v = v"
proof -
  assume "c \<notin> set v"
  then have "takeWhile (\<lambda>d. d \<noteq> c) (rev v) = rev v"
    by auto
  then show ?thesis unfolding afterLast_def by (simp only: rev_rev_ident)
qed

lemma afterLast_Cons:
  "afterLast c (a # v) = (if c \<in> set v then afterLast c v else if a = c then v else a # v)"
proof -
  have "c \<notin> set v \<Longrightarrow> takeWhile (\<lambda>d. d \<noteq> c) (rev v) = rev v"
    by auto
  then show ?thesis
    by (auto simp: afterLast_def takeWhile_append)
qed

text \<open>The last field of a split is the text after the last separator.\<close>

lemma last_splitOn: "last (splitOn c v) = afterLast c v"
proof (induction v)
  case Nil
  then show ?case by (simp add: afterLast_def)
next
  case (Cons a v)
  show ?case
  proof (cases "c \<in> set v")
    case True
    then have "2 \<le> length (splitOn c v)" by (rule splitOn_sep_length)
    then obtain f g fs where "splitOn c v = f # g # fs"
      by (cases "splitOn c v"; cases "tl (splitOn c v)") auto
    with Cons True show ?thesis by (auto simp: afterLast_Cons)
  next
    case False
    then show ?thesis
      by (auto simp: afterLast_Cons splitOn_no_sep afterLast_no_sep)
  qed
qed

lemma pop_last: "xs \<noteq> [] \<Longrightarrow> pop xs = Some (last xs)"
  by (cases xs rule: rev_cases) (auto simp: pop_def)

lemma trim_Nil: "trim [] = []"
  by (simp add: trim_def)

lemma normalizeTwoFactorSecret_eq:
  "normalizeTwoFactorSecret (Some raw) = orUndefined (trim (afterLastSlash (trim raw)))"
proof (cases "trim raw = []")
  case True
  then show ?thesis
    by (simp add: normalizeTwoFactorSecret_def afterLastSlash_def afterLast_def
        trim_Nil orUndefined_def)
next
  case False
  then have "raw \<noteq> []" by (auto simp: trim_Nil)
  with False show ?thesis
    by (simp add: normalizeTwoFactorSecret_def Let_def str_includes_single
        pop_last splitOn_not_Nil last_splitOn afterLastSlash_def afterLast_no_sep)
qed

lemma slice_nths: "b \<le> length xs \<Longrightarrow> slice a b xs = map (\<lambda>i. xs ! i) [a..<b]"
  by (auto simp: slice_def list_eq_iff_nth_eq)

lemma parse_otpauth_example:
  "parseAccountsFromTxt ''user:pass:a@b.com:ep:otpauth://totp/Twitter:secret=ABC:longct0:token''
   = [\<lparr>username = ''user'', password = ''pass'', email = ''a@b.com'',
       emailPassword = Some ''ep'', twoFactorSecret = Some ''Twitter:secret=ABC'',
       ct0 = Some ''longct0'', authToken = Some ''token''\<rparr>]"
  by code_simp

lemma parseLine_Some_nonempty:
  "parseLine line = Some a \<Longrightarrow> username a \<noteq> [] \<and> password a \<noteq> [] \<and> email a \<noteq> []"
  by (auto simp: parseLine_def Let_def split: if_splits)

text \<open>
  Claim C9. For a line that splits on \<open>:\<close> into \<open>n \<ge> 7\<close> fields, the first three of them
  non-empty, the parser gives an account whose \<open>ct0\<close> is field \<open>n - 2\<close> and whose
  \<open>authToken\<close> is field \<open>n - 1\<close> (an empty field being absent), and whose two-factor
  secret is fields 4 to \<open>n - 3\<close> joined with \<open>:\<close>, trimmed, cut to the text after the last
  \<open>/\<close>, and trimmed (absent when empty). A line of fewer than 7 fields gives no account.
  The \<open>otpauth\<close> line of the specification gives the one account it names.
\<close>

theorem parseLine_fields:
  "(parts = splitOn (CHR '':'') line \<and> n = length parts \<and> 7 \<le> n
      \<and> parts ! 0 \<noteq> [] \<and> parts ! 1 \<noteq> [] \<and> parts ! 2 \<noteq> [] \<longrightarrow>
      (\<exists>acct. parseLine line = Some acct
         \<and> ct0 acct = orUndefined (parts ! (n - 2))
         \<and> authToken acct = orUndefined (parts ! (n - 1))
         \<and> twoFactorSecret acct =
             orUndefined (trim (afterLastSlash (trim
               (joinWith (CHR '':'') (map (\<lambda>i. parts ! i) [4..<n - 2])))))))
   \<and> (length (splitOn (CHR '':'') line) < 7 \<longrightarrow> parseLine line = None)
   \<and> parseAccountsFromTxt ''user:pass:a@b.com:ep:otpauth://totp/Twitter:secret=ABC:longct0:token''
       = [\<lparr>username = ''user'', password = ''pass'', email = ''a@b.com'',
           emailPassword = Some ''ep'', twoFactorSecret = Some ''Twitter:secret=ABC'',
           ct0 = Some ''longct0'', authToken = Some ''token''\<rparr>]"
proof (intro conjI impI)
  assume h: "parts = splitOn (CHR '':'') line \<and> n = length parts \<and> 7 \<le> n
      \<and> parts ! 0 \<noteq> [] \<and> parts ! 1 \<noteq> [] \<and> parts ! 2 \<noteq> []"
  then have p: "splitOn (CHR '':'') line = parts" and n: "length parts = n" and n7: "7 \<le> n"
    and ne: "parts ! 0 \<noteq> []" "parts ! 1 \<noteq> []" "parts ! 2 \<noteq> []"
    by auto
  from n n7 have "slice 4 (n - 2) parts = map (\<lambda>i. parts ! i) [4..<n - 2]"
    by (intro slice_nths) simp
  with n n7 ne show "\<exists>acct. parseLine line = Some acct
         \<and> ct0 acct = orUndefined (parts ! (n - 2))
         \<and> authToken acct = orUndefined (parts ! (n - 1))
         \<and> twoFactorSecret acct =
             orUndefined (trim (afterLastSlash (trim
               (joinWith (CHR '':'') (map (\<lambda>i. parts ! i) [4..<n - 2])))))"
    by (simp add: parseLine_def Let_def p normalizeTwoFactorSecret_eq)
next
  assume "length (splitOn (CHR '':'') line) < 7"
  then show "parseLine line = None" by (simp add: parseLine_def Let_def)
next
  show "parseAccountsFromTxt ''user:pass:a@b.com:ep:otpauth://totp/Twitter:secret=ABC:longct0:token''
       = [\<lparr>username = ''user'', password = ''pass'', email = ''a@b.com'',
           emailPassword = Some ''ep'', twoFactorSecret = Some ''Twitter:secret=ABC'',
           ct0 = Some ''longct0'', authToken = Some ''token''\<rparr>]"
    by (rule parse_otpauth_example)
qed

theorem parseLine_fields_witness:
  "(\<exists>acct. parseLine ''user:pass:a@b.com:ep:otpauth://totp/Twitter:secret=ABC:longct0:token''
        = Some acct
      \<and> ct0 acct = Some ''longct0'' \<and> authToken acct = Some ''token''
      \<and> twoFactorSecret acct = Some ''Twitter:secret=ABC'')
   \<and> parseLine ''bad:line:only:four:fields:six'' = None"
proof -
  let ?line = "''user:pass:a@b.com:ep:otpauth://totp/Twitter:secret=ABC:longct0:token''"
  let ?parts = "[''user'', ''pass'', ''a@b.com'', ''ep'', ''otpauth'', ''//totp/Twitter'',
                 ''secret=ABC'', ''longct0'', ''token'']"
  have parts: "splitOn (CHR '':'') ?line = ?parts" by simp
  have range: "[4..<7] = [4, 5, 6 :: nat]" by (simp add: upt_rec)
  have secret: "orUndefined (trim (afterLastSlash (trim ''otpauth://totp/Twitter:secret=ABC'')))
      = Some ''Twitter:secret=ABC''"
    by code_simp
  have few: "length (splitOn (CHR '':'') ''bad:line:only:four:fields:six'') < 7" by simp
  from parseLine_fields [of ?parts ?line 9] parts range secret
  have one: "\<exists>acct. parseLine ?line = Some acct
      \<and> ct0 acct = Some ''longct0'' \<and> authToken acct = Some ''token''
      \<and> twoFactorSecret acct = Some ''Twitter:secret=ABC''"
    by (simp add: orUndefined_def)
  from parseLine_fields [of parts "''bad:line:only:four:fields:six''" n] few
  have none: "parseLine ''bad:line:only:four:fields:six'' = None" by blast
  from one none show ?thesis by (rule conjI)
qed

text \<open>
  Claim C10. A line of 7 or more fields whose username, password or email field is empty
  gives no account, and since the parser is a total function returning the list of
  accounts, no error either: no account parsed from any file has an empty username,
  password or email.
\<close>

theorem parseLine_drops_empty_identity:
  "(parts = splitOn (CHR '':'') line \<and> 7 \<le> length parts
      \<and> (parts ! 0 = [] \<or> parts ! 1 = [] \<or> parts ! 2 = []) \<longrightarrow> parseLine line = None)
   \<and> (\<forall>a \<in> set (parseAccountsFromTxt raw).
         username a \<noteq> [] \<and> password a \<noteq> [] \<and> email a \<noteq> [])"
proof -
  have dropped: "parts = splitOn (CHR '':'') line \<and> 7 \<le> length parts
      \<and> (parts ! 0 = [] \<or> parts ! 1 = [] \<or> parts ! 2 = []) \<longrightarrow> parseLine line = None"
    by (auto simp: parseLine_def Let_def)
  have kept: "\<forall>a \<in> set (parseAccountsFromTxt raw).
         username a \<noteq> [] \<and> password a \<noteq> [] \<and> email a \<noteq> []"
  proof
    fix a assume "a \<in> set (parseAccountsFromTxt raw)"
    then obtain line' where "parseLine line' = Some a"
      by (auto simp: parseAccountsFromTxt_def List.map_filter_def)
    then show "username a \<noteq> [] \<and> password a \<noteq> [] \<and> email a \<noteq> []"
      by (rule parseLine_Some_nonempty)
  qed
  from dropped kept show ?thesis by (rule conjI)
qed

theorem parseLine_drops_empty_identity_witness:
  "parseLine ''user::e@x.com:ep:2fa:ct0:tok'' = None
   \<and> length (splitOn (CHR '':'') ''user::e@x.com:ep:2fa:ct0:tok'') = 7
   \<and> parseAccountsFromTxt ''user::e@x.com:ep:2fa:ct0:tok'' = []"
proof -
  have parts: "splitOn (CHR '':'') ''user::e@x.com:ep:2fa:ct0:tok''
      = [''user'', '''', ''e@x.com'', ''ep'', ''2fa'', ''ct0'', ''tok'']"
    by simp
  from parseLine_drops_empty_identity
    [of "[''user'', '''', ''e@x.com'', ''ep'', ''2fa'', ''ct0'', ''tok'']"
        "''user::e@x.com:ep:2fa:ct0:tok''"] parts
  have none: "parseLine ''user::e@x.com:ep:2fa:ct0:tok'' = None" by simp
  have whole: "parseAccountsFromTxt ''user::e@x.com:ep:2fa:ct0:tok'' = []" by code_simp
  from none parts whole show ?thesis by simp
qed


section \<open>Properties of the health records\<close>

lemma healthOf_upd: "healthOf (m(u \<mapsto> h)) u = h"
  by (simp add: healthOf_def)

lemma healthOf_ensureHealth: "healthOf (ensureHealth m v) u = healthOf m u"
  by (simp add: healthOf_def ensureHealth_def)

lemma healthOf_foldl_ensureHealth: "healthOf (foldl ensureHealth m us) u = healthOf m u"
  by (induction us arbitrary: m) (simp_all add: healthOf_ensureHealth)

lemma selectable_foldl_ensureHealth:
  "selectable (foldl ensureHealth m us) now a = selectable m now a"
  by (simp add: selectable_def healthOf_foldl_ensureHealth)

lemma set_insertSorted: "set (insertSorted cmp x ys) = insert x (set ys)"
  by (induction ys) auto

lemma set_sortWith: "set (sortWith cmp xs) = set xs"
  by (induction xs) (simp_all add: sortWith_def set_insertSorted)

text \<open>Whatever \<open>selectAccount\<close> returns is a listed account that passed the filter.\<close>

lemma selectAccount_SomeD:
  assumes "fst (selectAccount accts m now) = Some a"
  shows "a \<in> set accts \<and> selectable m now a"
proof -
  let ?m = "foldl ensureHealth m (map username accts)"
  let ?c = "sortWith (compareAccounts ?m) (filter (selectable ?m now) accts)"
  from assms obtain rest where "?c = a # rest"
    by (auto simp: selectAccount_def Let_def split: list.splits)
  then have "a \<in> set ?c" by simp
  then show ?thesis
    by (simp add: set_sortWith selectable_foldl_ensureHealth)
qed

lemma recordFailure_rate_limit:
  "healthOf (recordFailure m u RATE_LIMIT now) u =
     (healthOf m u)\<lparr>lastUsed := now,
        requestCount := requestCount (healthOf m u) + 1,
        consecutiveFailures := consecutiveFailures (healthOf m u) + 1,
        consecutiveSuccesses := 0,
        lastErrorType := Some RATE_LIMIT,
        lastErrorTime := Some now,
        requestTimestamps := requestTimestamps (healthOf m u) @ [now],
        successRate := successRate (healthOf m u) * 0.9,
        status := COOLDOWN, cooldownUntil := Some (now + cooldownMs)\<rparr>"
  by (simp add: recordFailure_def Let_def healthOf_upd)

text \<open>
  Claim C3, at an account that failed once (success rate 0.9) and then succeeds: the
  moving average would give \<open>0.9 \<cdot> 0.9 + 0.1 = 0.91\<close>, and \<open>recordSuccess\<close> stores 1, because
  it first overwrites the rate with \<open>(requestCount - 0) / requestCount\<close>.
\<close>

theorem recordSuccess_forgets_rate:
  "successRate (healthOf (recordFailure Map.empty ''alice'' TIMEOUT 1) ''alice'') = 9 / 10
   \<and> successRate (healthOf (recordSuccess (recordFailure Map.empty ''alice'' TIMEOUT 1)
        ''alice'' 2) ''alice'') = 1
   \<and> (9 / 10 :: real) * 0.9 + 0.1 = 91 / 100"
  by (simp add: recordSuccess_def recordFailure_def healthOf_def initialHealth_def Let_def
      maxConsecutiveFailures_def)

lemma recordSuccess_successRate:
  "0 \<le> requestCount (healthOf m u) \<Longrightarrow> successRate (healthOf (recordSuccess m u now) u) = 1"
  by (simp add: recordSuccess_def Let_def healthOf_upd)

lemma recordFailure_successRate:
  "successRate (healthOf (recordFailure m u errorType now) u) = 0.9 * successRate (healthOf m u)"
  by (simp add: recordFailure_def Let_def healthOf_upd)

text \<open>
  What the two updates do to \<open>successRate\<close>: a failure multiplies it by 0.9; a success
  stores 1 whatever it was (the request count of a record is never negative); both
  keep it between 0 and 1.
\<close>

theorem successRate_updates:
  "successRate (healthOf (recordFailure m u errorType now) u) = 0.9 * successRate (healthOf m u)
   \<and> (0 \<le> requestCount (healthOf m u) \<longrightarrow>
        successRate (healthOf (recordSuccess m u now) u) = 1)
   \<and> (0 \<le> successRate (healthOf m u) \<and> successRate (healthOf m u) \<le> 1 \<longrightarrow>
        0 \<le> successRate (healthOf (recordFailure m u errorType now) u)
        \<and> successRate (healthOf (recordFailure m u errorType now) u) \<le> 1)"
  by (simp add: recordSuccess_successRate recordFailure_successRate)

theorem successRate_updates_witness:
  "successRate (healthOf (recordFailure Map.empty ''alice'' NETWORK 7) ''alice'') = 9 / 10
   \<and> successRate (healthOf (recordSuccess Map.empty ''alice'' 7) ''alice'') = 1
   \<and> 0 \<le> successRate (healthOf (recordFailure Map.empty ''alice'' NETWORK 7) ''alice'')"
proof -
  have fresh: "healthOf Map.empty ''alice'' = initialHealth" by (simp add: healthOf_def)
  from successRate_updates [of Map.empty "''alice''" NETWORK 7] fresh
  show ?thesis by (simp add: initialHealth_def)
qed


subsection \<open>The cooldown along a run\<close>

lemma blockedUntil_not_selectable:
  "blockedUntil d (healthOf m (username a)) \<Longrightarrow> now' < d \<Longrightarrow> \<not> selectable m now' a"
  by (auto simp: blockedUntil_def selectable_def Let_def cooldownPending_def
      split: option.splits)

lemma healthOf_other: "v \<noteq> u \<Longrightarrow> healthOf (m(v \<mapsto> h)) u = healthOf m u"
  by (simp add: healthOf_def)

lemma blockedUntil_recordSuccess:
  "blockedUntil d (healthOf m u) \<Longrightarrow> blockedUntil d (healthOf (recordSuccess m v now) u)"
  by (cases "v = u")
     (auto simp: recordSuccess_def Let_def healthOf_upd healthOf_other blockedUntil_def)

lemma blockedUntil_recordFailure:
  "blockedUntil d (healthOf m u) \<Longrightarrow> 0 \<le> now \<Longrightarrow> d \<le> now + cooldownMs \<Longrightarrow>
   blockedUntil d (healthOf (recordFailure m v errorType now) u)"
  by (cases "v = u")
     (auto simp: recordFailure_def Let_def healthOf_upd healthOf_other blockedUntil_def
        cooldownMs_def)

lemma blockedUntil_runHealthCheck:
  "blockedUntil d (healthOf m u) \<Longrightarrow> now < d \<Longrightarrow>
   blockedUntil d (healthOf (runHealthCheck m now) u)"
  by (cases "m u")
     (auto simp: runHealthCheck_def healthOf_def sweep_def Let_def blockedUntil_def
        cooldownOver_def initialHealth_def split: option.splits)

lemma healthOf_selectAccount:
  "healthOf (snd (selectAccount accts m now)) u = healthOf m u"
  by (simp add: selectAccount_def Let_def healthOf_foldl_ensureHealth)

lemma healthOf_loopHead:
  "healthOf (healthMap (loopHead rid opType att err now p)) u = healthOf (healthMap p) u"
proof -
  obtain r m where s: "selectAccount (accounts p) (healthMap p) now = (r, m)"
    by (cases "selectAccount (accounts p) (healthMap p) now")
  then have "healthOf m u = healthOf (healthMap p) u"
    using healthOf_selectAccount [of "accounts p" "healthMap p" now u] by simp
  with s show ?thesis
    by (cases r)
       (simp_all add: loopHead_def beginAttempt_def settle_def dropTask_def Let_def
          healthOf_ensureHealth)
qed

lemma healthOf_processQueue:
  "healthOf (healthMap (processQueue now p)) u = healthOf (healthMap p) u"
proof (induction now p rule: processQueue.induct)
  case (1 now p)
  show ?case
  proof (cases "activeOps p < maxConcurrency p \<and> 0 < queueLength (queue p)")
    case False
    then have "processQueue now p = p"
      by (subst processQueue.simps) (simp only: if_False)
    then show ?thesis by simp
  next
    case True
    then obtain req rest where it: "items (queue p) = req # rest"
      by (cases "items (queue p)") (auto simp: queueLength_def)
    let ?q = "(queue p)\<lparr>items := rest\<rparr>"
    let ?p = "loopHead (promise req) (execute req) 0 None now (p\<lparr>queue := ?q\<rparr>)"
    from it have d: "dequeue (queue p) = (Some req, ?q)" by (simp add: dequeue_def)
    have "processQueue now p = processQueue now ?p"
      using True d by (subst processQueue.simps) simp
    with "1.IH" [OF True d [symmetric] refl] show ?thesis
      by (simp add: healthOf_loopHead)
  qed
qed

lemma healthMap_putTask: "healthMap (putTask t p) = healthMap p"
  by (simp add: putTask_def)

lemma blockedUntil_catchFailure:
  "blockedUntil d (healthOf (healthMap p) u) \<Longrightarrow> 0 \<le> now \<Longrightarrow> d \<le> now + cooldownMs \<Longrightarrow>
   blockedUntil d (healthOf (healthMap (catchFailure t msg now p)) u)"
  by (simp add: catchFailure_def Let_def settle_def dropTask_def putTask_def
      blockedUntil_recordFailure)

lemma blockedUntil_step:
  assumes "blockedUntil d (healthOf (healthMap p) u)"
    and "0 \<le> lo" and "d \<le> lo + cooldownMs" and "hi < d" and "clockWithin lo hi ev"
  shows "blockedUntil d (healthOf (healthMap (step p ev)) u)"
proof (cases ev)
  case (Execute opType prio now)
  with assms(1) show ?thesis
    by (simp add: Let_def settle_def enqueue_def)
next
  case (ProcessQueue now)
  with assms(1) show ?thesis by (simp add: healthOf_processQueue)
next
  case (HealthCheck now)
  with assms show ?thesis
    by (simp add: clockWithin_def blockedUntil_runHealthCheck)
next
  case (AuthResolved rid)
  with assms(1) show ?thesis by (simp add: healthMap_putTask split: option.splits)
next
  case (AuthRejected rid msg now)
  with assms show ?thesis
    by (auto simp: clockWithin_def intro!: blockedUntil_catchFailure split: option.splits)
next
  case (ExecutorResolved rid now)
  with assms(1) show ?thesis
    by (simp add: settle_def dropTask_def blockedUntil_recordSuccess split: option.splits)
next
  case (ExecutorRejected rid msg now)
  with assms show ?thesis
    by (auto simp: clockWithin_def intro!: blockedUntil_catchFailure split: option.splits)
next
  case (BackoffElapsed rid now)
  with assms(1) show ?thesis by (simp add: healthOf_loopHead split: option.splits)
qed

lemma blockedUntil_run:
  assumes "blockedUntil d (healthOf (healthMap p) u)"
    and "0 \<le> lo" and "d \<le> lo + cooldownMs" and "hi < d"
    and "list_all (clockWithin lo hi) evs"
  shows "blockedUntil d (healthOf (healthMap (run p evs)) u)"
  using assms unfolding run_def
proof (induction evs arbitrary: p)
  case Nil
  then show ?case by simp
next
  case (Cons ev evs)
  from Cons.prems have "blockedUntil d (healthOf (healthMap (step p ev)) u)"
    by (intro blockedUntil_step [of d p u lo hi ev]) simp_all
  with Cons show ?case by simp
qed

text \<open>
  The cooldown along a run of the pool. After \<open>recordFailure\<close> with \<open>RATE_LIMIT\<close> at a
  clock reading \<open>now \<ge> 0\<close>, whatever events follow with clock readings between \<open>now\<close> and
  \<open>now'\<close>, a reading before the end of the cooldown, \<open>selectAccount\<close> at \<open>now'\<close> does not
  return an account of that name.
\<close>

lemma cooldown_holds_along_run:
  assumes "0 \<le> now" and "now' < now + cooldownMs"
    and "list_all (clockWithin now now') evs"
    and "username a = u"
  shows "fst (selectAccount accts
            (healthMap (run (p\<lparr>healthMap := recordFailure (healthMap p) u RATE_LIMIT now\<rparr>) evs))
            now') \<noteq> Some a"
proof -
  let ?p = "p\<lparr>healthMap := recordFailure (healthMap p) u RATE_LIMIT now\<rparr>"
  from assms(1) have "blockedUntil (now + cooldownMs) (healthOf (healthMap ?p) u)"
    by (simp add: recordFailure_rate_limit blockedUntil_def cooldownMs_def)
  with assms have "blockedUntil (now + cooldownMs) (healthOf (healthMap (run ?p evs)) u)"
    by (intro blockedUntil_run [of _ _ _ now now']) simp_all
  with assms have "\<not> selectable (healthMap (run ?p evs)) now' a"
    by (intro blockedUntil_not_selectable [of "now + cooldownMs"]) simp_all
  then show ?thesis
    using selectAccount_SomeD [of accts "healthMap (run ?p evs)" now' a] by blast
qed

text \<open>
  Claim C4. Right after \<open>recordFailure\<close> with \<open>RATE_LIMIT\<close> at a clock reading \<open>now \<ge> 0\<close>
  (milliseconds since the epoch), the account is in \<open>COOLDOWN\<close> until
  \<open>now + cooldownMs\<close>, two minutes later. At no reading \<open>now'\<close> before that does
  \<open>selectAccount\<close> return an account of that name, whatever accounts are listed: not on
  the health map \<open>recordFailure\<close> leaves, and not on the health map of a pool that
  started from it and ran any events whose clock readings lie between \<open>now\<close> and \<open>now'\<close>.
\<close>

theorem rate_limit_cooldown_blocks_selection:
  assumes "0 \<le> now"
  shows "status (healthOf (recordFailure m u RATE_LIMIT now) u) = COOLDOWN
     \<and> cooldownUntil (healthOf (recordFailure m u RATE_LIMIT now) u) = Some (now + cooldownMs)
     \<and> cooldownMs = 120000
     \<and> (\<forall>now' accts a. now' < now + cooldownMs \<and> username a = u \<longrightarrow>
           fst (selectAccount accts (recordFailure m u RATE_LIMIT now) now') \<noteq> Some a)
     \<and> (\<forall>now' accts a p evs.
           now' < now + cooldownMs \<and> username a = u
           \<and> healthMap p = recordFailure m u RATE_LIMIT now
           \<and> list_all (clockWithin now now') evs \<longrightarrow>
           fst (selectAccount accts (healthMap (run p evs)) now') \<noteq> Some a)"
proof -
  let ?m = "recordFailure m u RATE_LIMIT now"
  have st: "status (healthOf ?m u) = COOLDOWN"
    and cd: "cooldownUntil (healthOf ?m u) = Some (now + cooldownMs)"
    by (simp_all add: recordFailure_rate_limit)
  have ms: "cooldownMs = 120000" by (simp add: cooldownMs_def)
  have along: "fst (selectAccount accts (healthMap (run p evs)) now') \<noteq> Some a"
    if "now' < now + cooldownMs" "username a = u" "healthMap p = ?m"
      "list_all (clockWithin now now') evs" for now' accts a p evs
  proof -
    have "p\<lparr>healthMap := recordFailure m u RATE_LIMIT now\<rparr> = p"
      using that(3) by simp
    with cooldown_holds_along_run [OF assms that(1,4,2), of accts "p\<lparr>healthMap := m\<rparr>"]
    show ?thesis by simp
  qed
  have "fst (selectAccount accts ?m now') \<noteq> Some a"
    if "now' < now + cooldownMs" "username a = u" for now' accts a
    using along [OF that, of "\<lparr>accounts = [], proxyCount = 0, healthMap = ?m,
        queue = newPriorityQueue 0, activeOps = 0, maxConcurrency = 0, nextRequest = 0,
        inFlight = [], settled = []\<rparr>" "[]" accts]
    by (simp add: run_def)
  with st cd ms along show ?thesis by blast
qed

theorem rate_limit_cooldown_blocks_selection_witness:
  "status (healthOf (recordFailure Map.empty ''alice'' RATE_LIMIT 1000) ''alice'') = COOLDOWN
   \<and> cooldownUntil (healthOf (recordFailure Map.empty ''alice'' RATE_LIMIT 1000) ''alice'')
       = Some 121000
   \<and> fst (selectAccount [alice, bob] (recordFailure Map.empty ''alice'' RATE_LIMIT 1000) 120999)
       \<noteq> Some alice
   \<and> fst (selectAccount [alice, bob]
        (healthMap (run ((newPool defaultConfig [alice, bob] 0)
                           \<lparr>healthMap := recordFailure Map.empty ''alice'' RATE_LIMIT 1000\<rparr>)
                      [HealthCheck 2000, Execute ''op'' LOW 3000, ProcessQueue 4000]))
        5000) \<noteq> Some alice"
proof -
  have pos: "(0::int) \<le> 1000" by simp
  have name: "username alice = ''alice''" by (simp add: alice_def)
  have clock: "list_all (clockWithin 1000 5000)
      [HealthCheck 2000, Execute ''op'' LOW 3000, ProcessQueue 4000]"
    by (simp add: clockWithin_def)
  from rate_limit_cooldown_blocks_selection [OF pos, of Map.empty "''alice''"] name clock
  show ?thesis by (simp add: cooldownMs_def)
qed


section \<open>Properties of the pool\<close>

text \<open>
  Claim C1, at a pool of one account configured with \<open>MAX_CONCURRENCY = 1\<close>: two requests
  are admitted, one run of \<open>processQueue\<close> takes both from the queue, because the counter
  is still 0 when the loop tests it again, and once both are authenticated the counter
  is 2.
\<close>

theorem activeOps_exceeds_maxConcurrency:
  "maxConcurrency (run (newPool \<lparr>MAX_CONCURRENCY = Some 1, MAX_QUEUE_SIZE = None\<rparr> [alice] 0)
      [Execute ''a'' MEDIUM 1, Execute ''b'' MEDIUM 2, ProcessQueue 3,
       AuthResolved 0, AuthResolved 1]) = 1
   \<and> activeOps (run (newPool \<lparr>MAX_CONCURRENCY = Some 1, MAX_QUEUE_SIZE = None\<rparr> [alice] 0)
      [Execute ''a'' MEDIUM 1, Execute ''b'' MEDIUM 2, ProcessQueue 3,
       AuthResolved 0, AuthResolved 1]) = 2
   \<and> map phase (inFlight (run (newPool \<lparr>MAX_CONCURRENCY = Some 1, MAX_QUEUE_SIZE = None\<rparr> [alice] 0)
      [Execute ''a'' MEDIUM 1, Execute ''b'' MEDIUM 2, ProcessQueue 3,
       AuthResolved 0, AuthResolved 1])) = [Executing, Executing]"
  by code_simp

lemma findTask_SomeD:
  "findTask p rid ph = Some t \<Longrightarrow> request t = rid \<and> phase t = ph \<and> t \<in> set (inFlight p)"
  by (auto simp: findTask_def find_Some_iff)

lemma find_replaced:
  "t \<in> set ts \<Longrightarrow> request t = request t' \<Longrightarrow>
   find (\<lambda>x. request x = request t' \<and> phase x = phase t')
     (map (\<lambda>x. if request x = request t' then t' else x) ts) = Some t'"
  by (induction ts) auto

lemma findTask_putTask:
  "t \<in> set (inFlight p) \<Longrightarrow> request t = request t' \<Longrightarrow>
   findTask (putTask t' p) (request t') (phase t') = Some t'"
  by (simp add: findTask_def putTask_def find_replaced)

lemma catchFailure_not_transient:
  assumes "\<not> isTransientError (classifyError msg)"
  shows "catchFailure t msg now p =
     settle (request t) (Rejected msg)
       (dropTask (request t)
          (p\<lparr>healthMap := recordFailure (healthMap p) (username (account t)) (classifyError msg) now\<rparr>))"
  using assms by (simp add: catchFailure_def Let_def)

lemma catchFailure_transient:
  assumes "isTransientError (classifyError msg)"
  shows "catchFailure t msg now p =
     putTask (t\<lparr>phase := Backoff, lastError := Some msg\<rparr>)
       (p\<lparr>healthMap := recordFailure (healthMap p) (username (account t)) (classifyError msg) now\<rparr>)"
  using assms by (simp add: catchFailure_def Let_def)

text \<open>A failed attempt, of the executor or of the authentication, runs the \<open>catch\<close> block.\<close>

lemma step_rejected:
  assumes "findTask p rid ph = Some t"
    and "(ph = Executing \<and> ev = ExecutorRejected rid msg now)
       \<or> (ph = Authenticating \<and> ev = AuthRejected rid msg now)"
  shows "\<exists>p0. step p ev = catchFailure t msg now p0 \<and> inFlight p0 = inFlight p
     \<and> settled p0 = settled p \<and> healthMap p0 = healthMap p"
  using assms by auto

text \<open>
  Claim C2 fails at \<open>firstAttemptRunning\<close>: the first of three attempts fails with
  "429 Too Many Requests", classified \<open>RATE_LIMIT\<close>; the request is rejected with that
  message and no task is left to retry it, although the other account is selectable.
\<close>

theorem rate_limit_retry_counterexample:
  "classifyError ''429 Too Many Requests'' = RATE_LIMIT
   \<and> map attempt (inFlight firstAttemptRunning) = [0]
   \<and> maxRetries = 3
   \<and> settled (step firstAttemptRunning (ExecutorRejected 0 ''429 Too Many Requests'' 5))
       = [(0, Rejected ''429 Too Many Requests'')]
   \<and> inFlight (step firstAttemptRunning (ExecutorRejected 0 ''429 Too Many Requests'' 5)) = []
   \<and> fst (selectAccount [alice, bob]
        (healthMap (step firstAttemptRunning (ExecutorRejected 0 ''429 Too Many Requests'' 5))) 5)
       = Some bob"
  by code_simp

text \<open>What the head of the retry loop leaves behind, in terms of the promises settled
  and the tasks in flight: with an account selected, a task of the request that awaits
  the authentication of that account and nothing settled; with none, the request
  rejected and no task.\<close>

lemma find_restarted:
  "request new = rid \<Longrightarrow>
   find (\<lambda>t. request t = rid \<and> phase t = ph) (filter (\<lambda>t. request t \<noteq> rid) ts @ [new])
     = (if phase new = ph then Some new else None)"
  by (induction ts) auto

lemma find_dropped:
  "find (\<lambda>t. request t = rid \<and> phase t = ph) (filter (\<lambda>t. request t \<noteq> rid) ts) = None"
  by (simp add: find_None_iff)

lemma beginAttempt_selected:
  assumes "fst (selectAccount (accounts p) (healthMap p) now) = Some acct"
  shows "settled (beginAttempt rid opType att err now p) = settled p"
    and "findTask (beginAttempt rid opType att err now p) rid ph =
       (if ph = Authenticating
        then Some \<lparr>request = rid, operationType = opType, attempt = att, account = acct,
                   phase = Authenticating, lastError = err\<rparr>
        else None)"
proof -
  obtain m where s: "selectAccount (accounts p) (healthMap p) now = (Some acct, m)"
    using assms by (cases "selectAccount (accounts p) (healthMap p) now") simp
  show "settled (beginAttempt rid opType att err now p) = settled p"
    by (simp add: beginAttempt_def s dropTask_def Let_def)
  show "findTask (beginAttempt rid opType att err now p) rid ph =
       (if ph = Authenticating
        then Some \<lparr>request = rid, operationType = opType, attempt = att, account = acct,
                   phase = Authenticating, lastError = err\<rparr>
        else None)"
    by (auto simp: beginAttempt_def s dropTask_def Let_def findTask_def find_restarted)
qed

lemma beginAttempt_none:
  assumes "fst (selectAccount (accounts p) (healthMap p) now) = None"
  shows "settled (beginAttempt rid opType att err now p)
       = settled p @ [(rid, Rejected ''No usable accounts available'')]"
    and "findTask (beginAttempt rid opType att err now p) rid ph = None"
proof -
  obtain m where s: "selectAccount (accounts p) (healthMap p) now = (None, m)"
    using assms by (cases "selectAccount (accounts p) (healthMap p) now") simp
  show "settled (beginAttempt rid opType att err now p)
       = settled p @ [(rid, Rejected ''No usable accounts available'')]"
    by (simp add: beginAttempt_def s dropTask_def settle_def)
  show "findTask (beginAttempt rid opType att err now p) rid ph = None"
    by (simp add: beginAttempt_def s dropTask_def settle_def findTask_def find_dropped)
qed

text \<open>
  Claim C2 as amended. When an attempt of a request, its executor or its
  authentication, fails with a message classified \<open>RATE_LIMIT\<close>, the promise of the
  request is rejected with that message at once, whatever attempts remain, no task is
  left for it, and the account of the attempt is in \<open>COOLDOWN\<close> for \<open>cooldownMs\<close>. When
  the message is classified transient (\<open>TIMEOUT\<close>, \<open>NETWORK\<close>, \<open>UNKNOWN\<close>) nothing is
  settled and the task waits out its backoff with the message as last error. When the
  backoff ends after fewer than \<open>maxRetries\<close> = 3 attempts and \<open>selectAccount\<close> returns an
  account, nothing is settled and the task of the request awaits the authentication of
  that account, its attempt number one higher, its operation and last error kept, and
  no task of the request is inside its executor or in backoff;
  when it ends after fewer than 3 attempts and \<open>selectAccount\<close> returns none, the
  promise is rejected with "No usable accounts available", although attempts remain,
  and no task is left. When the backoff ends after the third attempt, the promise is
  rejected with the last error and no task is left.
\<close>

theorem rate_limit_propagates_at_once:
  "(findTask p rid ph = Some t
      \<and> ((ph = Executing \<and> ev = ExecutorRejected rid msg now)
          \<or> (ph = Authenticating \<and> ev = AuthRejected rid msg now))
      \<and> classifyError msg = RATE_LIMIT \<longrightarrow>
        settled (step p ev) = settled p @ [(rid, Rejected msg)]
      \<and> (\<forall>ph'. findTask (step p ev) rid ph' = None)
      \<and> status (healthOf (healthMap (step p ev)) (username (account t))) = COOLDOWN
      \<and> cooldownUntil (healthOf (healthMap (step p ev)) (username (account t)))
          = Some (now + cooldownMs))
   \<and> (findTask p rid ph = Some t
      \<and> ((ph = Executing \<and> ev = ExecutorRejected rid msg now)
          \<or> (ph = Authenticating \<and> ev = AuthRejected rid msg now))
      \<and> isTransientError (classifyError msg) \<longrightarrow>
        settled (step p ev) = settled p
      \<and> findTask (step p ev) rid Backoff = Some (t\<lparr>phase := Backoff, lastError := Some msg\<rparr>))
   \<and> (findTask p rid Backoff = Some t \<and> lastError t = Some e
      \<and> attempt t + 1 < maxRetries
      \<and> fst (selectAccount (accounts p) (healthMap p) now) = Some acct \<longrightarrow>
        settled (step p (BackoffElapsed rid now)) = settled p
      \<and> findTask (step p (BackoffElapsed rid now)) rid Authenticating
          = Some \<lparr>request = rid, operationType = operationType t, attempt = attempt t + 1,
                  account = acct, phase = Authenticating, lastError = Some e\<rparr>
      \<and> findTask (step p (BackoffElapsed rid now)) rid Executing = None
      \<and> findTask (step p (BackoffElapsed rid now)) rid Backoff = None)
   \<and> (findTask p rid Backoff = Some t \<and> lastError t = Some e
      \<and> attempt t + 1 < maxRetries
      \<and> fst (selectAccount (accounts p) (healthMap p) now) = None \<longrightarrow>
        settled (step p (BackoffElapsed rid now))
          = settled p @ [(rid, Rejected ''No usable accounts available'')]
      \<and> (\<forall>ph'. findTask (step p (BackoffElapsed rid now)) rid ph' = None))
   \<and> (findTask p rid Backoff = Some t \<and> lastError t = Some e
      \<and> \<not> attempt t + 1 < maxRetries \<longrightarrow>
        settled (step p (BackoffElapsed rid now)) = settled p @ [(rid, Rejected e)]
      \<and> (\<forall>ph'. findTask (step p (BackoffElapsed rid now)) rid ph' = None))
   \<and> maxRetries = 3"
proof -
  have propagates: "findTask p rid ph = Some t
      \<and> ((ph = Executing \<and> ev = ExecutorRejected rid msg now)
          \<or> (ph = Authenticating \<and> ev = AuthRejected rid msg now))
      \<and> classifyError msg = RATE_LIMIT \<longrightarrow>
        settled (step p ev) = settled p @ [(rid, Rejected msg)]
      \<and> (\<forall>ph'. findTask (step p ev) rid ph' = None)
      \<and> status (healthOf (healthMap (step p ev)) (username (account t))) = COOLDOWN
      \<and> cooldownUntil (healthOf (healthMap (step p ev)) (username (account t)))
          = Some (now + cooldownMs)"
  proof (rule impI)
    assume h: "findTask p rid ph = Some t
      \<and> ((ph = Executing \<and> ev = ExecutorRejected rid msg now)
          \<or> (ph = Authenticating \<and> ev = AuthRejected rid msg now))
      \<and> classifyError msg = RATE_LIMIT"
    then have task: "findTask p rid ph = Some t" and rl: "classifyError msg = RATE_LIMIT"
      by auto
    from h step_rejected [of p rid ph t ev msg now]
    obtain p0 where p0: "step p ev = catchFailure t msg now p0" "inFlight p0 = inFlight p"
        "settled p0 = settled p" "healthMap p0 = healthMap p"
      by blast
    from task have rid: "request t = rid" by (simp add: findTask_SomeD)
    from rl have nt: "\<not> isTransientError (classifyError msg)"
      by (simp add: isTransientError_def)
    have eq: "step p ev = settle rid (Rejected msg)
         (dropTask rid
            (p0\<lparr>healthMap := recordFailure (healthMap p) (username (account t)) RATE_LIMIT now\<rparr>))"
      using p0 rid rl by (simp add: catchFailure_not_transient [OF nt])
    show "settled (step p ev) = settled p @ [(rid, Rejected msg)]
        \<and> (\<forall>ph'. findTask (step p ev) rid ph' = None)
        \<and> status (healthOf (healthMap (step p ev)) (username (account t))) = COOLDOWN
        \<and> cooldownUntil (healthOf (healthMap (step p ev)) (username (account t)))
            = Some (now + cooldownMs)"
      unfolding eq using p0
      by (simp add: settle_def dropTask_def findTask_def find_None_iff recordFailure_rate_limit)
  qed
  have backoff: "findTask p rid ph = Some t
      \<and> ((ph = Executing \<and> ev = ExecutorRejected rid msg now)
          \<or> (ph = Authenticating \<and> ev = AuthRejected rid msg now))
      \<and> isTransientError (classifyError msg) \<longrightarrow>
        settled (step p ev) = settled p
      \<and> findTask (step p ev) rid Backoff = Some (t\<lparr>phase := Backoff, lastError := Some msg\<rparr>)"
  proof (rule impI)
    assume h: "findTask p rid ph = Some t
      \<and> ((ph = Executing \<and> ev = ExecutorRejected rid msg now)
          \<or> (ph = Authenticating \<and> ev = AuthRejected rid msg now))
      \<and> isTransientError (classifyError msg)"
    then have task: "findTask p rid ph = Some t" and tr: "isTransientError (classifyError msg)"
      by auto
    from h step_rejected [of p rid ph t ev msg now]
    obtain p0 where p0: "step p ev = catchFailure t msg now p0" "inFlight p0 = inFlight p"
        "settled p0 = settled p" "healthMap p0 = healthMap p"
      by blast
    from task have rid: "request t = rid" and mem: "t \<in> set (inFlight p)"
      by (simp_all add: findTask_SomeD)
    let ?t = "t\<lparr>phase := Backoff, lastError := Some msg\<rparr>"
    let ?p1 = "p0\<lparr>healthMap :=
                  recordFailure (healthMap p0) (username (account t)) (classifyError msg) now\<rparr>"
    have eq: "step p ev = putTask ?t ?p1"
      using p0 by (simp add: catchFailure_transient [OF tr])
    have "findTask (putTask ?t ?p1) (request ?t) (phase ?t) = Some ?t"
      using mem p0 by (intro findTask_putTask [of t]) simp_all
    then have "findTask (step p ev) rid Backoff = Some ?t"
      using rid eq by simp
    moreover have "settled (step p ev) = settled p"
      unfolding eq using p0 by (simp add: putTask_def)
    ultimately show "settled (step p ev) = settled p
        \<and> findTask (step p ev) rid Backoff = Some ?t"
      by simp
  qed
  have retried: "findTask p rid Backoff = Some t \<and> lastError t = Some e
      \<and> attempt t + 1 < maxRetries
      \<and> fst (selectAccount (accounts p) (healthMap p) now) = Some acct \<longrightarrow>
        settled (step p (BackoffElapsed rid now)) = settled p
      \<and> findTask (step p (BackoffElapsed rid now)) rid Authenticating
          = Some \<lparr>request = rid, operationType = operationType t, attempt = attempt t + 1,
                  account = acct, phase = Authenticating, lastError = Some e\<rparr>
      \<and> findTask (step p (BackoffElapsed rid now)) rid Executing = None
      \<and> findTask (step p (BackoffElapsed rid now)) rid Backoff = None"
  proof (rule impI)
    assume h: "findTask p rid Backoff = Some t \<and> lastError t = Some e
      \<and> attempt t + 1 < maxRetries
      \<and> fst (selectAccount (accounts p) (healthMap p) now) = Some acct"
    then have sel: "fst (selectAccount (accounts p) (healthMap p) now) = Some acct"
      by simp
    from h have eq: "step p (BackoffElapsed rid now)
        = beginAttempt rid (operationType t) (attempt t + 1) (Some e) now p"
      by (simp add: loopHead_def)
    show "settled (step p (BackoffElapsed rid now)) = settled p
      \<and> findTask (step p (BackoffElapsed rid now)) rid Authenticating
          = Some \<lparr>request = rid, operationType = operationType t, attempt = attempt t + 1,
                  account = acct, phase = Authenticating, lastError = Some e\<rparr>
      \<and> findTask (step p (BackoffElapsed rid now)) rid Executing = None
      \<and> findTask (step p (BackoffElapsed rid now)) rid Backoff = None"
      unfolding eq by (simp add: beginAttempt_selected [OF sel])
  qed
  have stranded: "findTask p rid Backoff = Some t \<and> lastError t = Some e
      \<and> attempt t + 1 < maxRetries
      \<and> fst (selectAccount (accounts p) (healthMap p) now) = None \<longrightarrow>
        settled (step p (BackoffElapsed rid now))
          = settled p @ [(rid, Rejected ''No usable accounts available'')]
      \<and> (\<forall>ph'. findTask (step p (BackoffElapsed rid now)) rid ph' = None)"
  proof (rule impI)
    assume h: "findTask p rid Backoff = Some t \<and> lastError t = Some e
      \<and> attempt t + 1 < maxRetries
      \<and> fst (selectAccount (accounts p) (healthMap p) now) = None"
    then have sel: "fst (selectAccount (accounts p) (healthMap p) now) = None"
      by simp
    from h have eq: "step p (BackoffElapsed rid now)
        = beginAttempt rid (operationType t) (attempt t + 1) (Some e) now p"
      by (simp add: loopHead_def)
    show "settled (step p (BackoffElapsed rid now))
          = settled p @ [(rid, Rejected ''No usable accounts available'')]
      \<and> (\<forall>ph'. findTask (step p (BackoffElapsed rid now)) rid ph' = None)"
      unfolding eq by (simp add: beginAttempt_none [OF sel])
  qed
  have exhausted: "findTask p rid Backoff = Some t \<and> lastError t = Some e
      \<and> \<not> attempt t + 1 < maxRetries \<longrightarrow>
        settled (step p (BackoffElapsed rid now)) = settled p @ [(rid, Rejected e)]
      \<and> (\<forall>ph'. findTask (step p (BackoffElapsed rid now)) rid ph' = None)"
    by (simp add: loopHead_def settle_def dropTask_def findTask_def find_dropped)
  have three: "maxRetries = 3" by (simp add: maxRetries_def)
  from propagates backoff retried stranded exhausted three show ?thesis by (intro conjI)
qed

lemma firstAttemptRunning_task:
  "findTask firstAttemptRunning 0 Executing =
     Some \<lparr>request = 0, operationType = ''getTweets(u)'', attempt = 0, account = alice,
           phase = Executing, lastError = None\<rparr>"
  by code_simp

lemma firstAttemptRunning_settled: "settled firstAttemptRunning = []"
  by code_simp

lemma classify_examples_for_retry:
  "classifyError ''429 Too Many Requests'' = RATE_LIMIT"
  "isTransientError (classifyError ''request timed out'')"
  by code_simp+

lemma firstAttemptRunning_timed_out:
  "fst (selectAccount
          (accounts (step firstAttemptRunning (ExecutorRejected 0 ''request timed out'' 5)))
          (healthMap (step firstAttemptRunning (ExecutorRejected 0 ''request timed out'' 5)))
          1100) = Some bob"
  by code_simp

lemma noAccountLeft_facts:
  "findTask noAccountLeft 0 Backoff =
     Some \<lparr>request = 0, operationType = ''getTweets(u)'', attempt = 0, account = alice,
           phase = Backoff, lastError = Some ''request timed out''\<rparr>"
  "settled noAccountLeft = [(1, Rejected ''429 Too Many Requests'')]"
  "fst (selectAccount (accounts noAccountLeft) (healthMap noAccountLeft) 1100) = None"
  by code_simp+

lemma thirdAttemptFailed_facts:
  "findTask thirdAttemptFailed 0 Backoff =
     Some \<lparr>request = 0, operationType = ''getTweets(u)'', attempt = 2, account = alice,
           phase = Backoff, lastError = Some ''request timed out''\<rparr>"
  "settled thirdAttemptFailed = []"
  by code_simp+

theorem rate_limit_propagates_at_once_witness:
  "settled (step firstAttemptRunning (ExecutorRejected 0 ''429 Too Many Requests'' 5))
     = [(0, Rejected ''429 Too Many Requests'')]
   \<and> findTask (step firstAttemptRunning (ExecutorRejected 0 ''429 Too Many Requests'' 5))
       0 Backoff = None
   \<and> settled (step firstAttemptRunning (ExecutorRejected 0 ''request timed out'' 5)) = []
   \<and> findTask (step firstAttemptRunning (ExecutorRejected 0 ''request timed out'' 5)) 0 Backoff
       = Some \<lparr>request = 0, operationType = ''getTweets(u)'', attempt = 0, account = alice,
               phase = Backoff, lastError = Some ''request timed out''\<rparr>
   \<and> settled (step (step firstAttemptRunning (ExecutorRejected 0 ''request timed out'' 5))
        (BackoffElapsed 0 1100)) = []
   \<and> findTask (step (step firstAttemptRunning (ExecutorRejected 0 ''request timed out'' 5))
        (BackoffElapsed 0 1100)) 0 Authenticating
       = Some \<lparr>request = 0, operationType = ''getTweets(u)'', attempt = 1, account = bob,
               phase = Authenticating, lastError = Some ''request timed out''\<rparr>
   \<and> settled (step noAccountLeft (BackoffElapsed 0 1100))
       = [(1, Rejected ''429 Too Many Requests''), (0, Rejected ''No usable accounts available'')]
   \<and> findTask (step noAccountLeft (BackoffElapsed 0 1100)) 0 Authenticating = None
   \<and> settled (step thirdAttemptFailed (BackoffElapsed 0 7500))
       = [(0, Rejected ''request timed out'')]
   \<and> findTask (step thirdAttemptFailed (BackoffElapsed 0 7500)) 0 Authenticating = None"
proof -
  let ?t = "\<lparr>request = 0, operationType = ''getTweets(u)'', attempt = 0, account = alice,
             phase = Executing, lastError = None\<rparr>"
  let ?tb = "\<lparr>request = 0, operationType = ''getTweets(u)'', attempt = 0, account = alice,
             phase = Backoff, lastError = Some ''request timed out''\<rparr>"
  let ?t3 = "\<lparr>request = 0, operationType = ''getTweets(u)'', attempt = 2, account = alice,
             phase = Backoff, lastError = Some ''request timed out''\<rparr>"
  let ?limited = "ExecutorRejected 0 ''429 Too Many Requests'' 5"
  let ?timeout = "ExecutorRejected 0 ''request timed out'' 5"
  from rate_limit_propagates_at_once
    [where p = firstAttemptRunning and rid = 0 and ph = Executing and t = ?t
       and ev = ?limited and msg = "''429 Too Many Requests''" and now = 5]
    firstAttemptRunning_task classify_examples_for_retry(1)
  have a: "settled (step firstAttemptRunning ?limited)
       = settled firstAttemptRunning @ [(0, Rejected ''429 Too Many Requests'')]
     \<and> (\<forall>ph'. findTask (step firstAttemptRunning ?limited) 0 ph' = None)"
    by blast
  from rate_limit_propagates_at_once
    [where p = firstAttemptRunning and rid = 0 and ph = Executing and t = ?t
       and ev = ?timeout and msg = "''request timed out''" and now = 5]
    firstAttemptRunning_task classify_examples_for_retry(2)
  have b: "settled (step firstAttemptRunning ?timeout) = settled firstAttemptRunning
     \<and> findTask (step firstAttemptRunning ?timeout) 0 Backoff
         = Some (?t\<lparr>phase := Backoff, lastError := Some ''request timed out''\<rparr>)"
    by blast
  then have b': "findTask (step firstAttemptRunning ?timeout) 0 Backoff = Some ?tb"
    by simp
  from rate_limit_propagates_at_once
    [where p = "step firstAttemptRunning ?timeout" and rid = 0 and t = ?tb
       and now = 1100 and e = "''request timed out''" and acct = bob]
    b' firstAttemptRunning_timed_out
  have c: "settled (step (step firstAttemptRunning ?timeout) (BackoffElapsed 0 1100))
       = settled (step firstAttemptRunning ?timeout)
     \<and> findTask (step (step firstAttemptRunning ?timeout) (BackoffElapsed 0 1100))
         0 Authenticating
         = Some \<lparr>request = 0, operationType = ''getTweets(u)'', attempt = 1, account = bob,
                 phase = Authenticating, lastError = Some ''request timed out''\<rparr>"
    by (simp add: maxRetries_def)
  from rate_limit_propagates_at_once
    [where p = noAccountLeft and rid = 0 and t = ?tb
       and now = 1100 and e = "''request timed out''"]
    noAccountLeft_facts
  have d: "settled (step noAccountLeft (BackoffElapsed 0 1100))
       = settled noAccountLeft @ [(0, Rejected ''No usable accounts available'')]
     \<and> (\<forall>ph'. findTask (step noAccountLeft (BackoffElapsed 0 1100)) 0 ph' = None)"
    by (simp add: maxRetries_def)
  from rate_limit_propagates_at_once
    [where p = thirdAttemptFailed and rid = 0 and t = ?t3
       and now = 7500 and e = "''request timed out''"]
    thirdAttemptFailed_facts
  have e: "settled (step thirdAttemptFailed (BackoffElapsed 0 7500))
       = settled thirdAttemptFailed @ [(0, Rejected ''request timed out'')]
     \<and> (\<forall>ph'. findTask (step thirdAttemptFailed (BackoffElapsed 0 7500)) 0 ph' = None)"
    by (simp add: maxRetries_def)
  from a b b' c d e show ?thesis
    by (simp add: firstAttemptRunning_settled noAccountLeft_facts thirdAttemptFailed_facts)
qed

subsection \<open>One run of the scheduler loop\<close>

lemma activeOps_loopHead: "activeOps (loopHead rid opType att err now p) = activeOps p"
  by (simp add: loopHead_def beginAttempt_def settle_def dropTask_def Let_def
      split: prod.splits option.splits)

lemma maxConcurrency_loopHead:
  "maxConcurrency (loopHead rid opType att err now p) = maxConcurrency p"
  by (simp add: loopHead_def beginAttempt_def settle_def dropTask_def Let_def
      split: prod.splits option.splits)

text \<open>
  Why the counter passes the cap: the loop of \<open>processQueue\<close> never changes \<open>activeOps\<close>,
  so with one slot free it takes every request from the queue.
\<close>

theorem processQueue_takes_all:
  "activeOps p < maxConcurrency p \<Longrightarrow>
     items (queue (processQueue now p)) = [] \<and> activeOps (processQueue now p) = activeOps p"
proof (induction now p rule: processQueue.induct)
  case (1 now p)
  show ?case
  proof (cases "items (queue p)")
    case Nil
    then have "processQueue now p = p"
      by (subst processQueue.simps) (simp add: queueLength_def)
    with Nil show ?thesis by simp
  next
    case (Cons req rest)
    let ?q = "(queue p)\<lparr>items := rest\<rparr>"
    let ?p = "loopHead (promise req) (execute req) 0 None now (p\<lparr>queue := ?q\<rparr>)"
    from Cons have d: "dequeue (queue p) = (Some req, ?q)" by (simp add: dequeue_def)
    from "1.prems" Cons have g: "activeOps p < maxConcurrency p \<and> 0 < queueLength (queue p)"
      by (simp add: queueLength_def)
    have "activeOps ?p < maxConcurrency ?p"
      using "1.prems" by (simp add: activeOps_loopHead maxConcurrency_loopHead)
    with "1.IH" [OF g d [symmetric] refl]
    have "items (queue (processQueue now ?p)) = [] \<and> activeOps (processQueue now ?p) = activeOps ?p"
      by simp
    moreover have "processQueue now p = processQueue now ?p"
      using g d by (subst processQueue.simps) simp
    ultimately show ?thesis by (simp add: activeOps_loopHead)
  qed
qed

theorem processQueue_takes_all_witness:
  "length (items (queue twoQueued)) = 2 \<and> maxConcurrency twoQueued = 1
   \<and> items (queue (processQueue 3 twoQueued)) = []
   \<and> activeOps (processQueue 3 twoQueued) = 0"
proof -
  have start: "length (items (queue twoQueued)) = 2" "maxConcurrency twoQueued = 1"
    "activeOps twoQueued = 0"
    by code_simp+
  then have free: "activeOps twoQueued < maxConcurrency twoQueued" by simp
  from processQueue_takes_all [OF free, of 3] start show ?thesis by simp
qed

text \<open>
  The end-to-end scenario of the specification: with one healthy account, an executor
  that fails with "request timed out" and then succeeds, the request resolves after
  one retry and the health record shows two requests, one consecutive success, no
  consecutive failure and status \<open>HEALTHY\<close>.
\<close>

theorem retry_after_timeout_resolves:
  "settled retryAfterTimeout = [(0, Resolved)]
   \<and> inFlight retryAfterTimeout = []
   \<and> activeOps retryAfterTimeout = 0
   \<and> requestCount (healthOf (healthMap retryAfterTimeout) ''alice'') = 2
   \<and> consecutiveSuccesses (healthOf (healthMap retryAfterTimeout) ''alice'') = 1
   \<and> consecutiveFailures (healthOf (healthMap retryAfterTimeout) ''alice'') = 0
   \<and> status (healthOf (healthMap retryAfterTimeout) ''alice'') = HEALTHY"
  by code_simp

subsection \<open>The counter and the tasks\<close>

lemma count_dropped:
  "distinct (map request ts) \<Longrightarrow> t \<in> set ts \<Longrightarrow>
   int (length (filter P (filter (\<lambda>x. request x \<noteq> request t) ts)))
     = int (length (filter P ts)) - (if P t then 1 else 0)"
proof (induction ts)
  case Nil
  then show ?case by simp
next
  case (Cons x ts)
  show ?case
  proof (cases "x = t")
    case True
    with Cons.prems have "\<forall>y \<in> set ts. request y \<noteq> request t"
      by (auto simp: image_iff)
    then have "filter (\<lambda>x. request x \<noteq> request t) ts = ts" by (simp add: filter_id_conv)
    with True show ?thesis by simp
  next
    case False
    with Cons.prems have "t \<in> set ts" and "request x \<noteq> request t"
      by (auto simp: image_iff)
    with Cons show ?thesis by auto
  qed
qed

lemma count_replaced:
  "distinct (map request ts) \<Longrightarrow> t \<in> set ts \<Longrightarrow> request t' = request t \<Longrightarrow>
   int (length (filter P (map (\<lambda>x. if request x = request t' then t' else x) ts)))
     = int (length (filter P ts)) - (if P t then 1 else 0) + (if P t' then 1 else 0)"
proof (induction ts)
  case Nil
  then show ?case by simp
next
  case (Cons x ts)
  show ?case
  proof (cases "x = t")
    case True
    with Cons.prems have "\<forall>y \<in> set ts. request y \<noteq> request t'"
      by (auto simp: image_iff)
    then have "map (\<lambda>x. if request x = request t' then t' else x) ts = ts"
      by (simp add: map_idI)
    with True Cons.prems show ?thesis by simp
  next
    case False
    with Cons.prems have "t \<in> set ts" and "request x \<noteq> request t'"
      by (auto simp: image_iff)
    with Cons show ?thesis by auto
  qed
qed

lemma requests_replaced:
  "map request (map (\<lambda>x. if request x = request t' then t' else x) ts) = map request ts"
  by (induction ts) auto

lemma count_not_executing:
  "\<forall>t \<in> set ts. request t = rid \<longrightarrow> phase t \<noteq> Executing \<Longrightarrow>
   filter (\<lambda>t. phase t = Executing) (filter (\<lambda>t. request t \<noteq> rid) ts)
     = filter (\<lambda>t. phase t = Executing) ts"
  by (induction ts) auto

text \<open>
  The invariant reads four fields of the pool. Each lemma below takes the pool after
  an operation through what the operation did to those fields.
\<close>

lemma poolInvariant_same:
  assumes "poolInvariant p"
    and "inFlight p' = inFlight p" and "queue p' = queue p"
    and "nextRequest p' = nextRequest p" and "activeOps p' = activeOps p"
  shows "poolInvariant p'"
  using assms by (simp add: poolInvariant_def requestIds_def executingCount_def)

lemma poolInvariant_removed:
  assumes "poolInvariant p" and "t \<in> set (inFlight p)"
    and "inFlight p' = filter (\<lambda>x. request x \<noteq> request t) (inFlight p)"
    and "queue p' = queue p" and "nextRequest p' = nextRequest p"
    and "activeOps p' = activeOps p - (if phase t = Executing then 1 else 0)"
  shows "poolInvariant p'"
proof -
  from assms(1) have d: "distinct (map request (inFlight p))"
    by (simp add: poolInvariant_def requestIds_def)
  from count_dropped [OF d assms(2), of "\<lambda>t. phase t = Executing"] assms(3)
  have "int (executingCount p') = int (executingCount p) - (if phase t = Executing then 1 else 0)"
    by (simp add: executingCount_def)
  with assms show ?thesis
    by (auto simp: poolInvariant_def requestIds_def distinct_map_filter list_all_iff)
qed

lemma poolInvariant_replaced:
  assumes "poolInvariant p" and "t \<in> set (inFlight p)" and "request t' = request t"
    and "inFlight p' = map (\<lambda>x. if request x = request t' then t' else x) (inFlight p)"
    and "queue p' = queue p" and "nextRequest p' = nextRequest p"
    and "activeOps p' = activeOps p + (if phase t' = Executing then 1 else 0)
           - (if phase t = Executing then 1 else 0)"
  shows "poolInvariant p'"
proof -
  from assms(1) have d: "distinct (map request (inFlight p))"
    by (simp add: poolInvariant_def requestIds_def)
  from count_replaced [OF d assms(2,3), of "\<lambda>t. phase t = Executing"] assms(4)
  have "int (executingCount p') = int (executingCount p) - (if phase t = Executing then 1 else 0)
      + (if phase t' = Executing then 1 else 0)"
    by (simp add: executingCount_def)
  moreover have "map request (inFlight p') = map request (inFlight p)"
    unfolding assms(4) by (rule requests_replaced)
  ultimately show ?thesis using assms(1,5,6,7)
    by (simp add: poolInvariant_def requestIds_def)
qed

lemma poolInvariant_restarted:
  assumes "poolInvariant p"
    and "\<forall>t \<in> set (inFlight p). request t = rid \<longrightarrow> phase t \<noteq> Executing"
    and "rid \<notin> promise ` set (items (queue p'))" and "rid < nextRequest p"
    and "inFlight p' = filter (\<lambda>x. request x \<noteq> rid) (inFlight p) @ new"
    and "new = [] \<or> (\<exists>t. new = [t] \<and> request t = rid \<and> phase t \<noteq> Executing)"
    and "set (items (queue p')) \<subseteq> set (items (queue p))"
    and "distinct (map promise (items (queue p')))"
    and "nextRequest p' = nextRequest p" and "activeOps p' = activeOps p"
  shows "poolInvariant p'"
proof -
  let ?Q = "promise ` set (items (queue p))"
  let ?Q' = "promise ` set (items (queue p'))"
  from count_not_executing [OF assms(2)] assms(5,6)
  have cnt: "executingCount p' = executingCount p"
    by (auto simp: executingCount_def)
  from assms(1) have d: "distinct (map request (inFlight p))"
    and apart: "request ` set (inFlight p) \<inter> ?Q = {}"
    and below: "\<forall>i \<in> request ` set (inFlight p) \<union> ?Q. i < nextRequest p"
    and act: "activeOps p = int (executingCount p)"
    by (auto simp: poolInvariant_def requestIds_def list_all_iff)
  have d': "distinct (map request (inFlight p'))"
    using d assms(5,6) by (auto simp: distinct_map_filter)
  have sub: "request ` set (inFlight p') \<subseteq> insert rid (request ` set (inFlight p))"
    using assms(5,6) by auto
  have subq: "?Q' \<subseteq> ?Q" using assms(7) by blast
  have apart': "request ` set (inFlight p') \<inter> ?Q' = {}"
    using sub subq apart assms(3) by blast
  have below': "\<forall>i \<in> request ` set (inFlight p') \<union> ?Q'. i < nextRequest p'"
    using sub subq below assms(4,9) by auto
  from d' assms(8) apart' below' cnt act assms(10) show ?thesis
    by (simp add: poolInvariant_def requestIds_def list_all_iff)
qed

lemma distinct_spliced:
  assumes "distinct (map f xs)" and "f x \<notin> f ` set xs"
  shows "distinct (map f (splice i x xs))"
proof -
  have parts: "map f xs = take i (map f xs) @ drop i (map f xs)" by simp
  with assms(1) have "distinct (take i (map f xs) @ drop i (map f xs))" by simp
  then have "distinct (take i (map f xs))" "distinct (drop i (map f xs))"
    "set (take i (map f xs)) \<inter> set (drop i (map f xs)) = {}"
    by (simp_all only: distinct_append)
  moreover from assms(2) have "f x \<notin> set (take i (map f xs))" "f x \<notin> set (drop i (map f xs))"
    by (auto dest: in_set_takeD in_set_dropD)
  ultimately show ?thesis
    by (simp add: splice_def take_map drop_map)
qed

lemma set_spliced: "set (splice i x xs) = insert x (set xs)"
proof -
  have "set (take i xs) \<union> set (drop i xs) = set xs"
    by (metis append_take_drop_id set_append)
  then show ?thesis by (auto simp: splice_def)
qed

lemma poolInvariant_execute:
  assumes "poolInvariant p"
  shows "poolInvariant (step p (Execute opType prio now))"
proof -
  let ?rid = "nextRequest p"
  let ?p1 = "p\<lparr>nextRequest := ?rid + 1\<rparr>"
  let ?ids = "\<lambda>q :: string PriorityQueue. map promise (items q)"
  from assms have d: "distinct (map request (inFlight p))" and dq: "distinct (?ids (queue p))"
    and apart: "request ` set (inFlight p) \<inter> set (?ids (queue p)) = {}"
    and below: "\<forall>t \<in> set (inFlight p). request t < ?rid"
      "\<forall>r \<in> set (items (queue p)). promise r < ?rid"
    and act: "activeOps p = int (executingCount p)"
    by (auto simp: poolInvariant_def requestIds_def list_all_iff)
  have same1: "requestIds ?p1 = requestIds p" "executingCount ?p1 = executingCount p"
    by (simp_all add: requestIds_def executingCount_def)
  have inv1: "poolInvariant ?p1"
    using assms same1 by (auto simp: poolInvariant_def list_all_iff intro: less_SucI)
  show ?thesis
  proof (cases "maxSize (queue p) \<le> int (length (items (queue p)))")
    case True
    have "poolInvariant (settle ?rid (Rejected ''Request queue is full'') ?p1)"
      by (rule poolInvariant_same [OF inv1]) (simp_all add: settle_def)
    with True show ?thesis by (simp add: Let_def enqueue_def)
  next
    case False
    let ?r = "\<lparr>priority = prio, timestamp = now, execute = opType, promise = ?rid\<rparr>"
    let ?q = "(queue p)\<lparr>items := splice (insertIdx ?r (items (queue p))) ?r (items (queue p))\<rparr>"
    from below(2) have fresh: "promise ?r \<notin> promise ` set (items (queue p))"
      by auto
    have dq': "distinct (?ids ?q)"
      using distinct_spliced [OF dq fresh] by simp
    have sq: "set (?ids ?q) = insert ?rid (set (?ids (queue p)))"
      by (simp add: set_spliced)
    from below(1) have "?rid \<notin> request ` set (inFlight p)" by auto
    with apart sq have apart': "request ` set (inFlight p) \<inter> set (?ids ?q) = {}" by auto
    from below sq have below': "\<forall>i \<in> request ` set (inFlight p) \<union> set (?ids ?q). i < ?rid + 1"
      by (auto intro: less_SucI)
    from d dq' apart' below' act have "poolInvariant (?p1\<lparr>queue := ?q\<rparr>)"
      by (simp add: poolInvariant_def requestIds_def executingCount_def list_all_iff)
    with False show ?thesis by (simp add: Let_def enqueue_def)
  qed
qed

lemma beginAttempt_fields:
  "\<exists>new. inFlight (beginAttempt rid opType att err now p)
            = filter (\<lambda>x. request x \<noteq> rid) (inFlight p) @ new
     \<and> (new = [] \<or> (\<exists>t. new = [t] \<and> request t = rid \<and> phase t \<noteq> Executing))
     \<and> queue (beginAttempt rid opType att err now p) = queue p
     \<and> nextRequest (beginAttempt rid opType att err now p) = nextRequest p
     \<and> activeOps (beginAttempt rid opType att err now p) = activeOps p"
proof -
  obtain r m where s: "selectAccount (accounts p) (healthMap p) now = (r, m)"
    by (cases "selectAccount (accounts p) (healthMap p) now")
  show ?thesis
  proof (cases r)
    case None
    with s show ?thesis by (simp add: beginAttempt_def settle_def dropTask_def)
  next
    case (Some acct)
    with s show ?thesis by (simp add: beginAttempt_def dropTask_def Let_def)
  qed
qed

lemma poolInvariant_beginAttempt:
  assumes "poolInvariant p"
    and "\<forall>t \<in> set (inFlight p). request t = rid \<longrightarrow> phase t \<noteq> Executing"
    and "rid \<notin> promise ` set (items (queue p))" and "rid < nextRequest p"
  shows "poolInvariant (beginAttempt rid opType att err now p)"
proof -
  let ?p' = "beginAttempt rid opType att err now p"
  from beginAttempt_fields [of rid opType att err now p]
  obtain new where f: "inFlight ?p' = filter (\<lambda>x. request x \<noteq> rid) (inFlight p) @ new"
    "new = [] \<or> (\<exists>t. new = [t] \<and> request t = rid \<and> phase t \<noteq> Executing)"
    "queue ?p' = queue p" "nextRequest ?p' = nextRequest p" "activeOps ?p' = activeOps p"
    by blast
  from assms(1) have dq: "distinct (map promise (items (queue p)))"
    by (simp add: poolInvariant_def requestIds_def)
  show ?thesis
    by (rule poolInvariant_restarted [OF assms(1,2) _ assms(4) f(1,2)])
       (simp_all add: f assms(3) dq)
qed

lemma poolInvariant_catchFailure:
  assumes "poolInvariant p" and "t \<in> set (inFlight p)"
    and "inFlight p0 = inFlight p" and "queue p0 = queue p"
    and "nextRequest p0 = nextRequest p"
    and "activeOps p0 = activeOps p - (if phase t = Executing then 1 else 0)"
  shows "poolInvariant (catchFailure t msg now p0)"
proof (cases "isTransientError (classifyError msg)")
  case False
  show ?thesis
    by (rule poolInvariant_removed [OF assms(1,2)])
       (simp_all add: False catchFailure_def Let_def settle_def dropTask_def assms)
next
  case True
  show ?thesis
    by (rule poolInvariant_replaced [OF assms(1,2), of "t\<lparr>phase := Backoff, lastError := Some msg\<rparr>"])
       (simp_all add: True catchFailure_def Let_def putTask_def assms)
qed

lemma poolInvariant_processQueue: "poolInvariant p \<Longrightarrow> poolInvariant (processQueue now p)"
proof (induction now p rule: processQueue.induct)
  case (1 now p)
  show ?case
  proof (cases "activeOps p < maxConcurrency p \<and> 0 < queueLength (queue p)")
    case False
    then have "processQueue now p = p"
      by (subst processQueue.simps) (simp only: if_False)
    with "1.prems" show ?thesis by simp
  next
    case True
    then obtain req rest where it: "items (queue p) = req # rest"
      by (cases "items (queue p)") (auto simp: queueLength_def)
    let ?q = "(queue p)\<lparr>items := rest\<rparr>"
    let ?rid = "promise req"
    let ?p = "loopHead ?rid (execute req) 0 None now (p\<lparr>queue := ?q\<rparr>)"
    from it have d: "dequeue (queue p) = (Some req, ?q)" by (simp add: dequeue_def)
    have eq: "processQueue now p = processQueue now ?p"
      using True d by (subst processQueue.simps) simp
    from "1.prems" it have inv0: "poolInvariant (p\<lparr>queue := ?q\<rparr>)"
      and fresh: "?rid \<notin> request ` set (inFlight p)"
      and notq: "?rid \<notin> promise ` set rest"
      and lt: "?rid < nextRequest p"
      by (auto simp: poolInvariant_def requestIds_def executingCount_def list_all_iff)
    from fresh have none: "\<forall>t \<in> set (inFlight (p\<lparr>queue := ?q\<rparr>)). request t = ?rid \<longrightarrow> phase t \<noteq> Executing"
      by (auto simp: image_iff)
    have "poolInvariant ?p"
      unfolding loopHead_def using poolInvariant_beginAttempt [OF inv0 none] notq lt
      by (simp add: maxRetries_def)
    with "1.IH" [OF True d [symmetric] refl] eq show ?thesis by simp
  qed
qed

lemma task_unique:
  "distinct (map request ts) \<Longrightarrow> t \<in> set ts \<Longrightarrow> t' \<in> set ts \<Longrightarrow> request t' = request t \<Longrightarrow> t' = t"
  by (auto simp: distinct_map dest: inj_onD)

lemma poolInvariant_step: "poolInvariant p \<Longrightarrow> poolInvariant (step p ev)"
proof (cases ev)
  case (Execute opType prio now)
  assume "poolInvariant p"
  with Execute show ?thesis by (simp only: poolInvariant_execute)
next
  case (ProcessQueue now)
  assume "poolInvariant p"
  with ProcessQueue show ?thesis by (simp add: poolInvariant_processQueue)
next
  case (HealthCheck now)
  assume "poolInvariant p"
  then have "poolInvariant (p\<lparr>healthMap := runHealthCheck (healthMap p) now\<rparr>)"
    by (rule poolInvariant_same) simp_all
  with HealthCheck show ?thesis by simp
next
  case (AuthResolved rid)
  assume inv: "poolInvariant p"
  show ?thesis
  proof (cases "findTask p rid Authenticating")
    case None
    with AuthResolved inv show ?thesis by simp
  next
    case (Some t)
    then have t: "t \<in> set (inFlight p)" "phase t = Authenticating" "request t = rid"
      by (simp_all add: findTask_SomeD)
    have "poolInvariant (putTask (t\<lparr>phase := Executing\<rparr>) (p\<lparr>activeOps := activeOps p + 1\<rparr>))"
      by (rule poolInvariant_replaced [OF inv t(1), of "t\<lparr>phase := Executing\<rparr>"])
         (simp_all add: putTask_def t)
    with AuthResolved Some show ?thesis by simp
  qed
next
  case (AuthRejected rid msg now)
  assume inv: "poolInvariant p"
  show ?thesis
  proof (cases "findTask p rid Authenticating")
    case None
    with AuthRejected inv show ?thesis by simp
  next
    case (Some t)
    then have t: "t \<in> set (inFlight p)" "phase t = Authenticating"
      by (simp_all add: findTask_SomeD)
    have "poolInvariant (catchFailure t msg now p)"
      by (rule poolInvariant_catchFailure [OF inv t(1)]) (simp_all add: t)
    with AuthRejected Some show ?thesis by simp
  qed
next
  case (ExecutorResolved rid now)
  assume inv: "poolInvariant p"
  show ?thesis
  proof (cases "findTask p rid Executing")
    case None
    with ExecutorResolved inv show ?thesis by simp
  next
    case (Some t)
    then have t: "t \<in> set (inFlight p)" "phase t = Executing" "request t = rid"
      by (simp_all add: findTask_SomeD)
    have "poolInvariant (settle rid Resolved
            (dropTask rid
               (p\<lparr>healthMap := recordSuccess (healthMap p) (username (account t)) now,
                  activeOps := activeOps p - 1\<rparr>)))"
      by (rule poolInvariant_removed [OF inv t(1)])
         (simp_all add: settle_def dropTask_def t)
    with ExecutorResolved Some show ?thesis by simp
  qed
next
  case (ExecutorRejected rid msg now)
  assume inv: "poolInvariant p"
  show ?thesis
  proof (cases "findTask p rid Executing")
    case None
    with ExecutorRejected inv show ?thesis by simp
  next
    case (Some t)
    then have t: "t \<in> set (inFlight p)" "phase t = Executing"
      by (simp_all add: findTask_SomeD)
    have "poolInvariant (catchFailure t msg now (p\<lparr>activeOps := activeOps p - 1\<rparr>))"
      by (rule poolInvariant_catchFailure [OF inv t(1)]) (simp_all add: t)
    with ExecutorRejected Some show ?thesis by simp
  qed
next
  case (BackoffElapsed rid now)
  assume inv: "poolInvariant p"
  show ?thesis
  proof (cases "findTask p rid Backoff")
    case None
    with BackoffElapsed inv show ?thesis by simp
  next
    case (Some t)
    then have t: "t \<in> set (inFlight p)" "phase t = Backoff" "request t = rid"
      by (simp_all add: findTask_SomeD)
    from inv have d: "distinct (map request (inFlight p))"
      and apart: "request ` set (inFlight p) \<inter> promise ` set (items (queue p)) = {}"
      and below: "\<forall>i \<in> request ` set (inFlight p). i < nextRequest p"
      by (auto simp: poolInvariant_def requestIds_def list_all_iff)
    have "t' = t" if "t' \<in> set (inFlight p)" "request t' = rid" for t'
      using task_unique [OF d t(1) that(1)] that(2) t(3) by simp
    with t(2) have only: "\<forall>t' \<in> set (inFlight p). request t' = rid \<longrightarrow> phase t' \<noteq> Executing"
      by auto
    from apart t have notq: "rid \<notin> promise ` set (items (queue p))" by auto
    from below t have lt: "rid < nextRequest p" by auto
    have "poolInvariant (loopHead rid (operationType t) (attempt t + 1) (lastError t) now p)"
    proof (cases "attempt t + 1 < maxRetries")
      case True
      with poolInvariant_beginAttempt [OF inv only notq lt] show ?thesis
        by (simp add: loopHead_def)
    next
      case False
      have "poolInvariant (settle rid
              (Rejected (case lastError t of Some e \<Rightarrow> e
                         | None \<Rightarrow> operationType t @ '' failed after retries''))
              (dropTask rid p))"
        by (rule poolInvariant_removed [OF inv t(1)]) (simp_all add: settle_def dropTask_def t)
      with False show ?thesis by (simp add: loopHead_def)
    qed
    with BackoffElapsed Some show ?thesis by simp
  qed
qed

lemma poolInvariant_newPool: "poolInvariant (newPool config accts nproxies)"
  by (simp add: poolInvariant_def newPool_def requestIds_def executingCount_def
      newPriorityQueue_def)

lemma poolInvariant_run: "poolInvariant p \<Longrightarrow> poolInvariant (run p evs)"
  unfolding run_def by (induction evs arbitrary: p) (simp_all add: poolInvariant_step)

text \<open>
  After any sequence of events on a new pool, \<open>activeOps\<close> is the number of tasks inside
  their executor: every increment is matched by the decrement of the \<open>finally\<close> block, and
  the counter is never negative.
\<close>

theorem activeOps_counts_executing:
  "activeOps (run (newPool config accts nproxies) evs)
     = int (executingCount (run (newPool config accts nproxies) evs))
   \<and> 0 \<le> activeOps (run (newPool config accts nproxies) evs)"
  using poolInvariant_run [OF poolInvariant_newPool, of config accts nproxies evs]
  by (simp add: poolInvariant_def)

subsection \<open>The promise of a request\<close>

























lemma firstAttemptRunning_promises:
  "items (queue firstAttemptRunning) = []"
  "map request (inFlight firstAttemptRunning) = [0]"
  "nextRequest firstAttemptRunning = 1"
  by code_simp+


subsection \<open>The statistics\<close>

text \<open>\<open>getStats\<close> reports a queue capacity of 1000 for every pool.\<close>

lemma getStats_queueMaxSize: "queueMaxSize (getStats p) = 1000"
  by (simp add: getStats_def)

text \<open>
  Claim C7, at a pool configured with \<open>MAX_QUEUE_SIZE = 5\<close>: its queue has capacity 5
  and \<open>getStats\<close> reports 1000.
\<close>

theorem getStats_maxSize_is_1000:
  "maxSize (queue (newPool \<lparr>MAX_CONCURRENCY = None, MAX_QUEUE_SIZE = Some 5\<rparr> [alice] 0)) = 5
   \<and> queueMaxSize (getStats (newPool \<lparr>MAX_CONCURRENCY = None, MAX_QUEUE_SIZE = Some 5\<rparr> [alice] 0))
       = 1000"
  by (simp add: getStats_def newPool_def newPriorityQueue_def configGet_def)

end
